theory Spec2Isabelle
  imports Complex_Main "HOL-Library.Monad_Syntax"
begin

section \<open>Data model (types.ts)\<close>

text \<open>
  A JavaScript \<open>number\<close> is modelled as a real: the arithmetic of the generator is read
  as exact arithmetic, so rounding of IEEE doubles is outside this development. Numbers
  that the code only ever uses as counters and array indices (\<open>r\<close>, \<open>c\<close>, \<open>id\<close>,
  \<open>loadedCount\<close>) are naturals; \<open>rows\<close>, \<open>cols\<close> and \<open>zIndex\<close> are integers.
  Field names that clash with constants of HOL carry a suffix (\<open>top\<close>, \<open>id\<close>),
  and the coordinates of a point are \<open>xc\<close>, \<open>yc\<close>.
\<close>

datatype Difficulty = Easy | Medium | Hard

fun difficulty_value :: "Difficulty \<Rightarrow> int" where
  "difficulty_value Easy = 3"
| "difficulty_value Medium = 5"
| "difficulty_value Hard = 10"

record Point =
  xc :: real
  yc :: real

record PieceShape =
  top_edge :: real
  right :: real
  bottom :: real
  left :: real

record PuzzlePiece =
  piece_id :: nat
  row :: nat
  col :: nat
  correctPos :: Point
  currentPos :: Point
  shape :: PieceShape
  imgUrl :: string
  width :: real
  height :: real
  isLocked :: bool
  zIndex :: int

section \<open>Layout Planner (generatePuzzle, lines 57-89)\<close>

text \<open>
  The local variables of the first part of \<open>img.onload\<close>, collected in a record.
  \<open>TAB_SIZE_RATIO\<close> is imported from a constants module and is a parameter here.
  \<open>Math.round\<close> is \<open>\<lfloor>x + 1/2\<rfloor>\<close>, which is \<^const>\<open>round\<close>. The grid size is the
  number of the \<open>Difficulty\<close> value (\<open>difficulty_value\<close>); any integer is admitted,
  as the enum type of the source admits any number. A division by zero, which JavaScript
  answers with \<open>Infinity\<close> or \<open>NaN\<close> and HOL with \<open>0\<close>, only arises for a zero
  height of the image or of the container, or for zero rows or columns, and the
  statements about the layout assume positive dimensions. \<open>layout\<close> computes in exact
  real arithmetic; the rounding of the doubles is added in \<open>layout_in\<close> below, on which
  the bounds of the aspect fit and the grid sizing rule are settled.
\<close>

record Layout =
  puzzleWidth :: real
  puzzleHeight :: real
  rows :: int
  cols :: int
  pieceWidth :: real
  pieceHeight :: real
  tabSize :: real

definition layout :: "real \<Rightarrow> real \<Rightarrow> real \<Rightarrow> int \<Rightarrow> real \<Rightarrow> real \<Rightarrow> Layout" where
  "layout TAB_SIZE_RATIO imgW imgH gridSize maxContainerWidth maxContainerHeight =
    (let imageAspect = imgW / imgH;
         containerAspect = maxContainerWidth / maxContainerHeight;
         (pw, ph) =
           (if imageAspect > containerAspect
            then (maxContainerWidth, maxContainerWidth / imageAspect)
            else (maxContainerHeight * imageAspect, maxContainerHeight));
         (rs, cs) =
           (if imageAspect \<ge> 1
            then (gridSize, round (of_int gridSize * imageAspect))
            else (round (of_int gridSize * (1 / imageAspect)), gridSize));
         pieceW = pw / of_int cs;
         pieceH = ph / of_int rs
     in \<lparr> puzzleWidth = pw, puzzleHeight = ph, rows = rs, cols = cs,
          pieceWidth = pieceW, pieceHeight = pieceH,
          tabSize = min pieceW pieceH * TAB_SIZE_RATIO \<rparr>)"

text \<open>
  The grid sizing rule as the specification words it, in exact arithmetic, for comparison
  with \<^const>\<open>layout\<close>.
\<close>

definition spec_grid :: "int \<Rightarrow> real \<Rightarrow> int \<times> int" where
  "spec_grid baseGrid imageAspect =
    (if imageAspect \<ge> 1 then (baseGrid, round (of_int baseGrid * imageAspect))
     else (round (of_int baseGrid * (1 / imageAspect)), baseGrid))"

subsection \<open>The same lines in double precision\<close>

text \<open>
  A JavaScript number is an IEEE 754 double, and every \<open>/\<close> and \<open>*\<close> of the source rounds
  its exact result to the nearest double, a tie going to the even significand. \<open>fl x\<close> is
  that rounding for a real \<open>x\<close> in the range of the normal doubles: with \<open>e\<close> the binary
  exponent of \<open>x\<close>, the doubles around \<open>x\<close> are the integer multiples of \<open>2 powi (e - 52)\<close>.
  Overflow to \<open>Infinity\<close>, the subnormal numbers and \<open>NaN\<close> are not represented; the
  statements about rounded results are made for inputs between \<open>2 powi (-100)\<close> and
  \<open>2 powi 100\<close> (\<open>in_range\<close>), where no intermediate result of the planner leaves the
  normal range and no divisor is zero. \<open>eps\<close> is the unit roundoff.
\<close>

definition eps :: real where
  "eps = 2 powi (-53)"

definition rne :: "real \<Rightarrow> int" where
  "rne y =
    (let f = \<lfloor>y\<rfloor>
     in if y - of_int f < 1 / 2 then f
        else if 1 / 2 < y - of_int f then f + 1
        else if even f then f else f + 1)"

definition fl :: "real \<Rightarrow> real" where
  "fl x =
    (if x = 0 then 0
     else (let e = \<lfloor>log 2 \<bar>x\<bar>\<rfloor> - 52
           in of_int (rne (x / 2 powi e)) * 2 powi e))"

definition in_range :: "real \<Rightarrow> bool" where
  "in_range x = (2 powi (-100) \<le> x \<and> x \<le> 2 powi 100)"

text \<open>
  Lines 57-89 again, with the result of every arithmetic operation passed through \<open>rnd\<close>:
  \<open>layout_in fl\<close> is the planner as JavaScript runs it, and \<open>layout_in (\<lambda>x. x)\<close> is
  \<^const>\<open>layout\<close>, the planner in exact arithmetic. The comparisons, \<open>Math.min\<close> and
  \<open>Math.round\<close> are exact on doubles; the grid size is an integer that a double holds.
\<close>

definition layout_in ::
  "(real \<Rightarrow> real) \<Rightarrow> real \<Rightarrow> real \<Rightarrow> real \<Rightarrow> int \<Rightarrow> real \<Rightarrow> real \<Rightarrow> Layout" where
  "layout_in rnd TAB_SIZE_RATIO imgW imgH gridSize maxContainerWidth maxContainerHeight =
    (let imageAspect = rnd (imgW / imgH);
         containerAspect = rnd (maxContainerWidth / maxContainerHeight);
         (pw, ph) =
           (if imageAspect > containerAspect
            then (maxContainerWidth, rnd (maxContainerWidth / imageAspect))
            else (rnd (maxContainerHeight * imageAspect), maxContainerHeight));
         (rs, cs) =
           (if imageAspect \<ge> 1
            then (gridSize, round (rnd (of_int gridSize * imageAspect)))
            else (round (rnd (of_int gridSize * rnd (1 / imageAspect))), gridSize));
         pieceW = rnd (pw / of_int cs);
         pieceH = rnd (ph / of_int rs)
     in \<lparr> puzzleWidth = pw, puzzleHeight = ph, rows = rs, cols = cs,
          pieceWidth = pieceW, pieceHeight = pieceH,
          tabSize = rnd (min pieceW pieceH * TAB_SIZE_RATIO) \<rparr>)"

text \<open>The grid sizing rule of the specification, its products and quotient rounded by \<open>rnd\<close>.\<close>

definition spec_grid_in :: "(real \<Rightarrow> real) \<Rightarrow> int \<Rightarrow> real \<Rightarrow> int \<times> int" where
  "spec_grid_in rnd baseGrid imageAspect =
    (if imageAspect \<ge> 1 then (baseGrid, round (rnd (of_int baseGrid * imageAspect)))
     else (round (rnd (of_int baseGrid * rnd (1 / imageAspect))), baseGrid))"

section \<open>Shape Assigner (generatePuzzle, lines 91-125)\<close>

text \<open>
  \<open>shapes\<close> is an array of rows, each an array of cells that start as \<open>null\<close>
  (\<open>None\<close>). The rows are built by the \<open>map\<close> callback, one fresh array each, so no
  two rows are aliased and a list of lists is a faithful picture. A computation that
  throws (a \<open>TypeError\<close> on reading a property of \<open>null\<close> or \<open>undefined\<close>, a
  \<open>RangeError\<close> of \<open>Array(n)\<close> for negative \<open>n\<close>) is \<open>None\<close>.
  \<open>Math.random()\<close> reads the next value of a stream \<open>rand\<close>; the state counts the
  calls made so far.
\<close>

type_synonym shape_grid = "PieceShape option list list"

definition init_shapes :: "int \<Rightarrow> int \<Rightarrow> shape_grid option" where
  "init_shapes rs cs =
    (if rs < 0 then None
     else if rs > 0 \<and> cs < 0 then None
     else Some (replicate (nat rs) (replicate (nat cs) None)))"

definition read_cell :: "shape_grid \<Rightarrow> nat \<Rightarrow> nat \<Rightarrow> PieceShape option" where
  "read_cell g r c =
    (if r < length g \<and> c < length (g ! r) then g ! r ! c else None)"

definition write_cell :: "shape_grid \<Rightarrow> nat \<Rightarrow> nat \<Rightarrow> PieceShape \<Rightarrow> shape_grid option" where
  "write_cell g r c s =
    (if r < length g
     then (if c < length (g ! r)
           then Some (g[r := (g ! r)[c := Some s]])
           else Some (g[r := g ! r @ replicate (c - length (g ! r)) None @ [Some s]]))
     else None)"

definition modify_cell ::
  "shape_grid \<Rightarrow> nat \<Rightarrow> nat \<Rightarrow> (PieceShape \<Rightarrow> PieceShape) \<Rightarrow> shape_grid option" where
  "modify_cell g r c f =
    (case read_cell g r c of None \<Rightarrow> None | Some s \<Rightarrow> write_cell g r c (f s))"

record assigner =
  shapes :: shape_grid
  drawn :: nat

definition coin :: "(nat \<Rightarrow> real) \<Rightarrow> nat \<Rightarrow> real" where
  "coin rand k = (if rand k > 0.5 then 1 else - 1)"

definition assign_cell ::
  "(nat \<Rightarrow> real) \<Rightarrow> int \<Rightarrow> int \<Rightarrow> nat \<Rightarrow> nat \<Rightarrow> assigner \<Rightarrow> assigner option" where
  "assign_cell rand rs cs r c st = do {
     g0 \<leftarrow> write_cell (shapes st) r c \<lparr> top_edge = 0, right = 0, bottom = 0, left = 0 \<rparr>;
     g1 \<leftarrow> (if r > 0
            then do { upper \<leftarrow> read_cell g0 (r - 1) c;
                      modify_cell g0 r c (\<lambda>s. s\<lparr> top_edge := - bottom upper \<rparr>) }
            else Some g0);
     g2 \<leftarrow> (if c > 0
            then do { prev \<leftarrow> read_cell g1 r (c - 1);
                      modify_cell g1 r c (\<lambda>s. s\<lparr> left := - right prev \<rparr>) }
            else Some g1);
     a3 \<leftarrow> (if int c < cs - 1
            then do { g \<leftarrow> modify_cell g2 r c (\<lambda>s. s\<lparr> right := coin rand (drawn st) \<rparr>);
                      Some \<lparr> shapes = g, drawn = drawn st + 1 \<rparr> }
            else Some \<lparr> shapes = g2, drawn = drawn st \<rparr>);
     (if int r < rs - 1
      then do { g \<leftarrow> modify_cell (shapes a3) r c (\<lambda>s. s\<lparr> bottom := coin rand (drawn a3) \<rparr>);
                Some \<lparr> shapes = g, drawn = drawn a3 + 1 \<rparr> }
      else Some a3)
   }"

text \<open>A counted \<open>for\<close> loop whose body may throw.\<close>

fun for_each :: "nat list \<Rightarrow> (nat \<Rightarrow> 's \<Rightarrow> 's option) \<Rightarrow> 's \<Rightarrow> 's option" where
  "for_each [] body s = Some s"
| "for_each (i # is) body s =
     (case body i s of None \<Rightarrow> None | Some s' \<Rightarrow> for_each is body s')"

definition generate_shapes :: "(nat \<Rightarrow> real) \<Rightarrow> int \<Rightarrow> int \<Rightarrow> assigner option" where
  "generate_shapes rand rs cs = do {
     g \<leftarrow> init_shapes rs cs;
     for_each [0..<nat rs] (\<lambda>r. for_each [0..<nat cs] (assign_cell rand rs cs r))
       \<lparr> shapes = g, drawn = 0 \<rparr>
   }"

subsection \<open>The invariant of the shape loop\<close>

text \<open>
  \<open>put\<close> is the in-range store \<open>shapes[r][c] = s\<close>. A cell is \<open>cell_ok\<close> when it
  holds a descriptor whose top and left edges negate the stored bottom and right edges
  of the cells above and to the left, and whose right and bottom edges are \<open>\<plusminus>1\<close>
  inside the grid and \<open>0\<close> on its border. \<open>assigned rs cs r c g\<close> says that the grid
  has its full size and every cell before \<open>(r, c)\<close> in row-major order is \<open>cell_ok\<close>.
\<close>

definition put :: "shape_grid \<Rightarrow> nat \<Rightarrow> nat \<Rightarrow> PieceShape \<Rightarrow> shape_grid" where
  "put g r c s = g[r := (g ! r)[c := Some s]]"

definition cell_ok :: "int \<Rightarrow> int \<Rightarrow> shape_grid \<Rightarrow> nat \<Rightarrow> nat \<Rightarrow> bool" where
  "cell_ok rs cs g r c =
    (\<exists>s. read_cell g r c = Some s
       \<and> (if 0 < r then \<exists>u. read_cell g (r - 1) c = Some u \<and> top_edge s = - bottom u
           else top_edge s = 0)
       \<and> (if 0 < c then \<exists>p. read_cell g r (c - 1) = Some p \<and> left s = - right p
           else left s = 0)
       \<and> (if int c < cs - 1 then right s = 1 \<or> right s = - 1 else right s = 0)
       \<and> (if int r < rs - 1 then bottom s = 1 \<or> bottom s = - 1 else bottom s = 0))"

definition earlier :: "nat \<Rightarrow> nat \<Rightarrow> nat \<Rightarrow> nat \<Rightarrow> bool" where
  "earlier i j r c = (i < r \<or> (i = r \<and> j < c))"

definition assigned :: "int \<Rightarrow> int \<Rightarrow> nat \<Rightarrow> nat \<Rightarrow> shape_grid \<Rightarrow> bool" where
  "assigned rs cs r c g =
    (length g = nat rs \<and> (\<forall>i < nat rs. length (g ! i) = nat cs)
     \<and> (\<forall>i j. j < nat cs \<and> earlier i j r c \<longrightarrow> cell_ok rs cs g i j))"

section \<open>Piece Rasterizer (generatePuzzle lines 127-229, drawJigsawPath, drawTab)\<close>

text \<open>
  The 2D context is modelled by the list of calls made on it, in order. Whether
  \<open>getContext('2d')\<close> yields a context for the canvas of cell \<open>(r, c)\<close> is an input
  (\<open>getContext r c\<close>), and so is the serialisation \<open>toDataURL\<close> of a canvas of a given
  size with given drawing calls.
\<close>

datatype canvas_op =
    Save | Restore | BeginPath | ClosePath | Clip | Stroke
  | MoveTo real real
  | LineTo real real
  | BezierCurveTo real real real real real real
  | DrawImage real real real real real real real real
  | FillRect real real real real
  | StrokeStyle string | LineWidth real | GlobalCompositeOperation string
  | ShadowColor string | ShadowBlur real | ShadowOffsetX real | ShadowOffsetY real
  | FillStyle string

definition drawTab :: "real \<Rightarrow> real \<Rightarrow> real \<Rightarrow> real \<Rightarrow> real \<Rightarrow> real \<Rightarrow> canvas_op list" where
  "drawTab x1 y1 x2 y2 dir tsize =
    (let cx = (x1 + x2) / 2;
         cy = (y1 + y2) / 2;
         dx = x2 - x1;
         dy = y2 - y1;
         len = sqrt (dx * dx + dy * dy);
         nx = - dy / len * dir;
         ny = dx / len * dir;
         neck = len * 0.2;
         x1_neck = cx - (dx / len) * neck;
         y1_neck = cy - (dy / len) * neck;
         x2_neck = cx + (dx / len) * neck;
         y2_neck = cy + (dy / len) * neck;
         headX = cx + nx * tsize;
         headY = cy + ny * tsize
     in [ BezierCurveTo
            (x1_neck + nx * (tsize * 0.2)) (y1_neck + ny * (tsize * 0.2))
            (headX - (dx / len) * tsize) (headY - (dy / len) * (tsize * 0.2))
            (headX - (dx / len) * (tsize * 0.2)) headY,
          BezierCurveTo
            (headX + (dx / len) * (tsize * 0.2)) headY
            (headX + (dx / len) * tsize) (headY + (dy / len) * (tsize * 0.2))
            (x2_neck + nx * (tsize * 0.2)) (y2_neck + ny * (tsize * 0.2)),
          LineTo x2 y2 ])"

text \<open>The four edges of \<open>drawJigsawPath\<close>, each a tab or a straight line.\<close>

definition top_path :: "real \<Rightarrow> real \<Rightarrow> real \<Rightarrow> real \<Rightarrow> PieceShape \<Rightarrow> real \<Rightarrow> canvas_op list" where
  "top_path x y w h sh tab =
    (if top_edge sh \<noteq> 0 then drawTab x y (x + w) y (top_edge sh) tab else [LineTo (x + w) y])"

definition right_path :: "real \<Rightarrow> real \<Rightarrow> real \<Rightarrow> real \<Rightarrow> PieceShape \<Rightarrow> real \<Rightarrow> canvas_op list" where
  "right_path x y w h sh tab =
    (if right sh \<noteq> 0 then drawTab (x + w) y (x + w) (y + h) (right sh) tab
     else [LineTo (x + w) (y + h)])"

definition bottom_path :: "real \<Rightarrow> real \<Rightarrow> real \<Rightarrow> real \<Rightarrow> PieceShape \<Rightarrow> real \<Rightarrow> canvas_op list" where
  "bottom_path x y w h sh tab =
    (if bottom sh \<noteq> 0 then drawTab (x + w) (y + h) x (y + h) (bottom sh) tab
     else [LineTo x (y + h)])"

definition left_path :: "real \<Rightarrow> real \<Rightarrow> real \<Rightarrow> real \<Rightarrow> PieceShape \<Rightarrow> real \<Rightarrow> canvas_op list" where
  "left_path x y w h sh tab =
    (if left sh \<noteq> 0 then drawTab x (y + h) x y (left sh) tab else [LineTo x y])"

definition drawJigsawPath ::
  "real \<Rightarrow> real \<Rightarrow> real \<Rightarrow> real \<Rightarrow> PieceShape \<Rightarrow> real \<Rightarrow> canvas_op list" where
  "drawJigsawPath x y w h sh tab =
    [BeginPath, MoveTo x y]
    @ top_path x y w h sh tab
    @ right_path x y w h sh tab
    @ bottom_path x y w h sh tab
    @ left_path x y w h sh tab
    @ [ClosePath]"

text \<open>Everything drawn on the canvas of cell \<open>(r, c)\<close> between \<open>getContext\<close> and \<open>toDataURL\<close>.\<close>

definition draw_piece :: "real \<Rightarrow> real \<Rightarrow> Layout \<Rightarrow> nat \<Rightarrow> nat \<Rightarrow> PieceShape \<Rightarrow> canvas_op list" where
  "draw_piece imgW imgH L r c sh =
    (let canvasWidth = pieceWidth L + tabSize L * 2;
         canvasHeight = pieceHeight L + tabSize L * 2;
         offsetX = tabSize L;
         offsetY = tabSize L;
         path = drawJigsawPath offsetX offsetY (pieceWidth L) (pieceHeight L) sh (tabSize L);
         globalX = real c * pieceWidth L - tabSize L;
         globalY = real r * pieceHeight L - tabSize L
     in [Save] @ path @ [Clip,
          DrawImage 0 0 imgW imgH (- globalX) (- globalY) (puzzleWidth L) (puzzleHeight L),
          Restore,
          Save, StrokeStyle ''rgba(255, 255, 255, 0.4)'', LineWidth 1] @ path @ [Stroke, Restore,
          Save] @ path @ [Clip,
          GlobalCompositeOperation ''source-atop'',
          ShadowColor ''rgba(0, 0, 0, 0.2)'', ShadowBlur 2, ShadowOffsetX 1, ShadowOffsetY 1,
          FillStyle ''rgba(0,0,0,0)'', FillRect 0 0 canvasWidth canvasHeight,
          ShadowColor ''rgba(255, 255, 255, 0.3)'', ShadowBlur 2,
          ShadowOffsetX (- 1), ShadowOffsetY (- 1),
          FillRect 0 0 canvasWidth canvasHeight,
          Restore])"

definition make_piece ::
  "(real \<Rightarrow> real \<Rightarrow> canvas_op list \<Rightarrow> string) \<Rightarrow> real \<Rightarrow> real \<Rightarrow> Layout \<Rightarrow> nat \<Rightarrow> nat
     \<Rightarrow> PieceShape \<Rightarrow> PuzzlePiece" where
  "make_piece toDataURL imgW imgH L r c sh =
    (let canvasWidth = pieceWidth L + tabSize L * 2;
         canvasHeight = pieceHeight L + tabSize L * 2
     in \<lparr> piece_id = r * nat (cols L) + c,
          row = r,
          col = c,
          correctPos = \<lparr> xc = real c * pieceWidth L - tabSize L,
                         yc = real r * pieceHeight L - tabSize L \<rparr>,
          currentPos = \<lparr> xc = 0, yc = 0 \<rparr>,
          shape = sh,
          imgUrl = toDataURL canvasWidth canvasHeight (draw_piece imgW imgH L r c sh),
          width = canvasWidth,
          height = canvasHeight,
          isLocked = False,
          zIndex = 1 \<rparr>)"

text \<open>
  The state of the second loop: the \<open>pieces\<close> array, \<open>loadedCount\<close>, and whether
  \<open>resolve\<close> has been called. A cell whose context is missing takes the \<open>continue\<close>.
\<close>

record raster =
  pieces_acc :: "PuzzlePiece list"
  loadedCount :: nat
  resolve_called :: bool

definition raster_cell ::
  "(real \<Rightarrow> real \<Rightarrow> canvas_op list \<Rightarrow> string) \<Rightarrow> (nat \<Rightarrow> nat \<Rightarrow> bool) \<Rightarrow> real \<Rightarrow> real \<Rightarrow> Layout
     \<Rightarrow> shape_grid \<Rightarrow> nat \<Rightarrow> nat \<Rightarrow> raster \<Rightarrow> raster option" where
  "raster_cell toDataURL getContext imgW imgH L g r c st =
    (if \<not> r < length g then None
     else if \<not> getContext r c then Some st
     else (case read_cell g r c of
             None \<Rightarrow> None
           | Some sh \<Rightarrow>
               (let st' = st\<lparr> pieces_acc := pieces_acc st @ [make_piece toDataURL imgW imgH L r c sh],
                              loadedCount := loadedCount st + 1 \<rparr>
                in Some (if int (loadedCount st') = rows L * cols L
                         then st'\<lparr> resolve_called := True \<rparr> else st'))))"

definition rasterize ::
  "(real \<Rightarrow> real \<Rightarrow> canvas_op list \<Rightarrow> string) \<Rightarrow> (nat \<Rightarrow> nat \<Rightarrow> bool) \<Rightarrow> real \<Rightarrow> real \<Rightarrow> Layout
     \<Rightarrow> shape_grid \<Rightarrow> raster option" where
  "rasterize toDataURL getContext imgW imgH L g =
    for_each [0..<nat (rows L)]
      (\<lambda>r. for_each [0..<nat (cols L)] (raster_cell toDataURL getContext imgW imgH L g r))
      \<lparr> pieces_acc = [], loadedCount = 0, resolve_called = False \<rparr>"

text \<open>
  The body of \<open>img.onload\<close> for an image of size \<open>imgW \<times> imgH\<close>: the layout, the final
  shape grid and the final state of the second loop, or \<open>None\<close> when it throws.
\<close>

definition onload ::
  "real \<Rightarrow> (real \<Rightarrow> real \<Rightarrow> canvas_op list \<Rightarrow> string) \<Rightarrow> (nat \<Rightarrow> real) \<Rightarrow> (nat \<Rightarrow> nat \<Rightarrow> bool)
     \<Rightarrow> real \<Rightarrow> real \<Rightarrow> int \<Rightarrow> real \<Rightarrow> real \<Rightarrow> (Layout \<times> shape_grid \<times> raster) option" where
  "onload TAB_SIZE_RATIO toDataURL rand getContext imgW imgH gridSize
       maxContainerWidth maxContainerHeight =
    (let L = layout TAB_SIZE_RATIO imgW imgH gridSize maxContainerWidth maxContainerHeight
     in case generate_shapes rand (rows L) (cols L) of
          None \<Rightarrow> None
        | Some a \<Rightarrow>
            (case rasterize toDataURL getContext imgW imgH L (shapes a) of
               None \<Rightarrow> None
             | Some st \<Rightarrow> Some (L, shapes a, st)))"

text \<open>
  The promise returned by \<open>generatePuzzle\<close>: rejected when the image fails to load,
  resolved when \<open>resolve\<close> was called in \<open>onload\<close> (the consumer then sees the \<open>pieces\<close>
  array as the handler left it), and pending for ever otherwise, which includes a handler
  that throws.
\<close>

datatype image_load = Loaded real real | LoadError

datatype outcome = Resolved "PuzzlePiece list" real real | Rejected | Pending

definition generatePuzzle ::
  "real \<Rightarrow> (real \<Rightarrow> real \<Rightarrow> canvas_op list \<Rightarrow> string) \<Rightarrow> (nat \<Rightarrow> real) \<Rightarrow> (nat \<Rightarrow> nat \<Rightarrow> bool)
     \<Rightarrow> image_load \<Rightarrow> int \<Rightarrow> real \<Rightarrow> real \<Rightarrow> outcome" where
  "generatePuzzle TAB_SIZE_RATIO toDataURL rand getContext img gridSize
       maxContainerWidth maxContainerHeight =
    (case img of
       LoadError \<Rightarrow> Rejected
     | Loaded imgW imgH \<Rightarrow>
         (case onload TAB_SIZE_RATIO toDataURL rand getContext imgW imgH gridSize
                 maxContainerWidth maxContainerHeight of
            None \<Rightarrow> Pending
          | Some (L, g, st) \<Rightarrow>
              if resolve_called st
              then Resolved (pieces_acc st) (puzzleWidth L) (puzzleHeight L)
              else Pending))"

subsection \<open>What the second loop has pushed\<close>

text \<open>
  \<open>cells_upto C r c\<close> lists the cells visited before \<open>(r, c)\<close> in a grid with \<open>C\<close>
  columns, and \<open>pushed\<close> the pieces that visiting a list of cells appends: one for each
  cell that gets a context.
\<close>

definition cells_upto :: "nat \<Rightarrow> nat \<Rightarrow> nat \<Rightarrow> (nat \<times> nat) list" where
  "cells_upto C r c = concat (map (\<lambda>i. map (Pair i) [0..<C]) [0..<r]) @ map (Pair r) [0..<c]"

definition pushed_at ::
  "(real \<Rightarrow> real \<Rightarrow> canvas_op list \<Rightarrow> string) \<Rightarrow> (nat \<Rightarrow> nat \<Rightarrow> bool) \<Rightarrow> real \<Rightarrow> real \<Rightarrow> Layout
     \<Rightarrow> shape_grid \<Rightarrow> nat \<times> nat \<Rightarrow> PuzzlePiece list" where
  "pushed_at toDataURL getContext imgW imgH L g rc =
    (if getContext (fst rc) (snd rc)
     then (case read_cell g (fst rc) (snd rc) of
             None \<Rightarrow> []
           | Some sh \<Rightarrow> [make_piece toDataURL imgW imgH L (fst rc) (snd rc) sh])
     else [])"

definition pushed ::
  "(real \<Rightarrow> real \<Rightarrow> canvas_op list \<Rightarrow> string) \<Rightarrow> (nat \<Rightarrow> nat \<Rightarrow> bool) \<Rightarrow> real \<Rightarrow> real \<Rightarrow> Layout
     \<Rightarrow> shape_grid \<Rightarrow> (nat \<times> nat) list \<Rightarrow> PuzzlePiece list" where
  "pushed toDataURL getContext imgW imgH L g cells =
    concat (map (pushed_at toDataURL getContext imgW imgH L g) cells)"

definition raster_inv ::
  "(real \<Rightarrow> real \<Rightarrow> canvas_op list \<Rightarrow> string) \<Rightarrow> (nat \<Rightarrow> nat \<Rightarrow> bool) \<Rightarrow> real \<Rightarrow> real \<Rightarrow> Layout
     \<Rightarrow> shape_grid \<Rightarrow> nat \<Rightarrow> nat \<Rightarrow> raster \<Rightarrow> bool" where
  "raster_inv toDataURL getContext imgW imgH L g r c st =
    (pieces_acc st = pushed toDataURL getContext imgW imgH L g (cells_upto (nat (cols L)) r c)
     \<and> loadedCount st = length (pieces_acc st)
     \<and> (\<not> resolve_called st \<or> rows L * cols L \<le> int (loadedCount st))
     \<and> (resolve_called st \<or> int (loadedCount st) < rows L * cols L
          \<or> rows L \<le> 0 \<or> cols L \<le> 0))"

subsection \<open>The curve that a path traces\<close>

text \<open>
  The geometric reading of the path calls, used to compare the cuts of two neighbouring
  pieces: \<open>lineTo\<close> adds the straight segment from the current point, \<open>bezierCurveTo\<close>
  the cubic Bezier curve from the current point with the two control points given.
  A canvas is placed on the board with its origin at the piece's \<open>correctPos\<close>.
\<close>

datatype segment =
    Line "real \<times> real" "real \<times> real"
  | Cubic "real \<times> real" "real \<times> real" "real \<times> real" "real \<times> real"

fun trace :: "real \<times> real \<Rightarrow> canvas_op list \<Rightarrow> segment list" where
  "trace p [] = []"
| "trace p (MoveTo x y # ops) = trace (x, y) ops"
| "trace p (LineTo x y # ops) = Line p (x, y) # trace (x, y) ops"
| "trace p (BezierCurveTo a b c d e f # ops) = Cubic p (a, b) (c, d) (e, f) # trace (e, f) ops"
| "trace p (_ # ops) = trace p ops"

definition cubic_at :: "real \<Rightarrow> real \<Rightarrow> real \<Rightarrow> real \<Rightarrow> real \<Rightarrow> real" where
  "cubic_at a b c d t =
    (1 - t) ^ 3 * a + 3 * (1 - t) ^ 2 * t * b + 3 * (1 - t) * t ^ 2 * c + t ^ 3 * d"

fun on_segment :: "real \<times> real \<Rightarrow> segment \<Rightarrow> bool" where
  "on_segment (px, py) (Line (ax, ay) (bx, by)) =
     (\<exists>t. 0 \<le> t \<and> t \<le> 1 \<and> px = ax + t * (bx - ax) \<and> py = ay + t * (by - ay))"
| "on_segment (px, py) (Cubic (ax, ay) (bx, by) (cx, cy) (dx, dy)) =
     (\<exists>t. 0 \<le> t \<and> t \<le> 1 \<and> px = cubic_at ax bx cx dx t \<and> py = cubic_at ay by cy dy t)"

definition on_path :: "real \<times> real \<Rightarrow> segment list \<Rightarrow> bool" where
  "on_path p segs = list_ex (on_segment p) segs"

definition cut_points :: "Point \<Rightarrow> real \<times> real \<Rightarrow> canvas_op list \<Rightarrow> (real \<times> real) set" where
  "cut_points origin start ops =
    {(x + xc origin, y + yc origin) | x y. on_path (x, y) (trace start ops)}"

text \<open>
  The right edge of the piece of cell \<open>(r, c)\<close> and the left edge of a piece, as point
  sets on the board. In \<open>drawJigsawPath\<close> the right edge starts where the top edge
  ended, at \<open>(x + w, y)\<close>, and the left edge where the bottom edge ended, at \<open>(x, y + h)\<close>;
  \<open>x = y = tabSize\<close> as in the calls of \<open>generatePuzzle\<close>.
\<close>

definition origin_of :: "Layout \<Rightarrow> nat \<Rightarrow> nat \<Rightarrow> Point" where
  "origin_of L r c = \<lparr> xc = real c * pieceWidth L - tabSize L,
                       yc = real r * pieceHeight L - tabSize L \<rparr>"

definition right_cut :: "Layout \<Rightarrow> nat \<Rightarrow> nat \<Rightarrow> PieceShape \<Rightarrow> (real \<times> real) set" where
  "right_cut L r c sh =
    cut_points (origin_of L r c) (tabSize L + pieceWidth L, tabSize L)
      (right_path (tabSize L) (tabSize L) (pieceWidth L) (pieceHeight L) sh (tabSize L))"

definition left_cut :: "Layout \<Rightarrow> nat \<Rightarrow> nat \<Rightarrow> PieceShape \<Rightarrow> (real \<times> real) set" where
  "left_cut L r c sh =
    cut_points (origin_of L r c) (tabSize L, tabSize L + pieceHeight L)
      (left_path (tabSize L) (tabSize L) (pieceWidth L) (pieceHeight L) sh (tabSize L))"

section \<open>Interaction (JigsawGame: pointer handlers)\<close>

text \<open>
  The React state of the component that the handlers read and write. In
  \<open>handlePointerDown\<close>, \<open>handlePointerMove\<close>, \<open>handlePointerUp\<close> and \<open>play\<close> an event
  handler is taken to run on the committed state and its updates to be committed before
  the next event, and coordinates are exact reals; the interval timer is not modelled.
  The release handler is given a second time below (\<open>handlePointerUp_in\<close>) with the state
  of its render and the rounding of its arithmetic made explicit.
  \<open>SNAP_TOLERANCE\<close> is imported from a constants module and is a parameter.
  \<open>handlePointerDown\<close> gets the time \<open>Date.now()\<close>, the pointer position and the
  top-left corner of the board rectangle; \<open>handlePointerMove\<close> gets the corner of the
  board only when the container and its first child exist.
\<close>

record game =
  pieces :: "PuzzlePiece list"
  draggedPieceId :: "nat option"
  dragOffset :: Point
  completed :: bool
  startTime :: "real option"
  timerActive :: bool

definition shuffle :: "(nat \<Rightarrow> real) \<Rightarrow> real \<Rightarrow> real \<Rightarrow> PuzzlePiece list \<Rightarrow> PuzzlePiece list" where
  "shuffle rand pw ph ps =
    map (\<lambda>(i, p). p\<lparr> currentPos :=
            \<lparr> xc = rand (2 * i) * (pw - width p) * 1.2 - pw * 0.1,
              yc = rand (2 * i + 1) * (ph - height p) * 1.2 - ph * 0.1 \<rparr> \<rparr>)
        (enumerate 0 ps)"

text \<open>
  The state of a freshly mounted component holding the pieces \<open>ps\<close>, and \<open>initGame\<close>:
  the pieces of a resolved generation are scattered, a failed or pending generation
  leaves the component without pieces.
\<close>

definition new_game :: "PuzzlePiece list \<Rightarrow> game" where
  "new_game ps =
    \<lparr> pieces = ps, draggedPieceId = None, dragOffset = \<lparr> xc = 0, yc = 0 \<rparr>,
      completed = False, startTime = None, timerActive = False \<rparr>"

definition initGame :: "(nat \<Rightarrow> real) \<Rightarrow> outcome \<Rightarrow> game" where
  "initGame rand res =
    (case res of
       Resolved ps pw ph \<Rightarrow> new_game (shuffle rand pw ph ps)
     | Rejected \<Rightarrow> new_game []
     | Pending \<Rightarrow> new_game [])"

definition handlePointerDown ::
  "real \<Rightarrow> real \<Rightarrow> real \<Rightarrow> real \<Rightarrow> real \<Rightarrow> nat \<Rightarrow> game \<Rightarrow> game" where
  "handlePointerDown now clientX clientY boardLeft boardTop pieceId g =
    (let g1 = (if \<not> timerActive g \<and> \<not> completed g
               then g\<lparr> timerActive := True, startTime := Some now \<rparr> else g)
     in case find (\<lambda>p. piece_id p = pieceId) (pieces g) of
          None \<Rightarrow> g1
        | Some piece \<Rightarrow>
            if isLocked piece then g1
            else (let maxZ = foldr max (map zIndex (pieces g)) 1;
                      offsetX = clientX - (boardLeft + xc (currentPos piece));
                      offsetY = clientY - (boardTop + yc (currentPos piece))
                  in g1\<lparr> pieces := map (\<lambda>p. if piece_id p = pieceId
                                              then p\<lparr> zIndex := maxZ + 1 \<rparr> else p) (pieces g1),
                         draggedPieceId := Some pieceId,
                         dragOffset := \<lparr> xc = offsetX, yc = offsetY \<rparr> \<rparr>))"

definition handlePointerMove :: "real \<Rightarrow> real \<Rightarrow> (real \<times> real) option \<Rightarrow> game \<Rightarrow> game" where
  "handlePointerMove clientX clientY board g =
    (case draggedPieceId g of
       None \<Rightarrow> g
     | Some d \<Rightarrow>
         (case board of
            None \<Rightarrow> g
          | Some (boardLeft, boardTop) \<Rightarrow>
              (let newX = clientX - boardLeft - xc (dragOffset g);
                   newY = clientY - boardTop - yc (dragOffset g)
               in g\<lparr> pieces := map (\<lambda>p. if piece_id p \<noteq> d then p
                                          else p\<lparr> currentPos := \<lparr> xc = newX, yc = newY \<rparr> \<rparr>)
                                    (pieces g) \<rparr>)))"

definition snap_dist :: "PuzzlePiece \<Rightarrow> real" where
  "snap_dist piece =
    sqrt ((xc (currentPos piece) - xc (correctPos piece)) ^ 2
        + (yc (currentPos piece) - yc (correctPos piece)) ^ 2)"

definition handlePointerUp :: "real \<Rightarrow> game \<Rightarrow> game" where
  "handlePointerUp SNAP_TOLERANCE g =
    (case draggedPieceId g of
       None \<Rightarrow> g
     | Some d \<Rightarrow>
         (let g1 = (case find (\<lambda>p. piece_id p = d) (pieces g) of
                      None \<Rightarrow> g
                    | Some piece \<Rightarrow>
                        if snap_dist piece < SNAP_TOLERANCE
                        then g\<lparr> pieces := map (\<lambda>p. if piece_id p \<noteq> d then p
                                    else p\<lparr> currentPos := correctPos p, isLocked := True,
                                            zIndex := 0 \<rparr>) (pieces g) \<rparr>
                        else g)
          in g1\<lparr> draggedPieceId := None \<rparr>))"

text \<open>
  The release handler as the closure that a render creates. In its body
  \<open>draggedPieceId\<close> and \<open>pieces\<close> are the values of the state at that render
  (\<open>rendered\<close>), while the updater functions that it hands to \<open>setPieces\<close> and
  \<open>setDraggedPieceId\<close> are applied to the state \<open>g\<close> that is current when they run,
  which has every earlier update in it. The distance is computed in doubles: the two
  differences and the sum are rounded by \<open>rnd\<close>, and \<open>Math.sqrt\<close> and \<open>Math.pow\<close>,
  whose precision ECMAScript leaves to the implementation, are the parameters
  \<open>Math_sqrt\<close> and \<open>Math_pow\<close>. \<^const>\<open>handlePointerUp\<close> is the case where the
  handler belongs to the current state and the arithmetic is exact.
\<close>

definition snap_dist_in ::
  "(real \<Rightarrow> real) \<Rightarrow> (real \<Rightarrow> real) \<Rightarrow> (real \<Rightarrow> nat \<Rightarrow> real) \<Rightarrow> PuzzlePiece \<Rightarrow> real" where
  "snap_dist_in rnd Math_sqrt Math_pow piece =
    Math_sqrt (rnd (Math_pow (rnd (xc (currentPos piece) - xc (correctPos piece))) 2
                  + Math_pow (rnd (yc (currentPos piece) - yc (correctPos piece))) 2))"

definition handlePointerUp_in :: "(PuzzlePiece \<Rightarrow> real) \<Rightarrow> real \<Rightarrow> game \<Rightarrow> game \<Rightarrow> game" where
  "handlePointerUp_in dist_of SNAP_TOLERANCE rendered g =
    (case draggedPieceId rendered of
       None \<Rightarrow> g
     | Some d \<Rightarrow>
         (let g1 = (case find (\<lambda>p. piece_id p = d) (pieces rendered) of
                      None \<Rightarrow> g
                    | Some piece \<Rightarrow>
                        if dist_of piece < SNAP_TOLERANCE
                        then g\<lparr> pieces := map (\<lambda>p. if piece_id p \<noteq> d then p
                                    else p\<lparr> currentPos := correctPos p, isLocked := True,
                                            zIndex := 0 \<rparr>) (pieces g) \<rparr>
                        else g)
          in g1\<lparr> draggedPieceId := None \<rparr>))"

text \<open>
  The distance in the arithmetic of the doubles, with \<open>Math.sqrt\<close> and \<open>Math.pow\<close>
  correctly rounded, as the common engines have them for a square root and a square.
\<close>

definition snap_dist_fl :: "PuzzlePiece \<Rightarrow> real" where
  "snap_dist_fl = snap_dist_in fl (\<lambda>x. fl (sqrt x)) (\<lambda>x n. fl (x ^ n))"

text \<open>The effect that runs after \<open>pieces\<close> has changed.\<close>

definition check_completion :: "game \<Rightarrow> game" where
  "check_completion g =
    (if pieces g \<noteq> [] \<and> list_all isLocked (pieces g)
     then g\<lparr> completed := True, timerActive := False \<rparr> else g)"

datatype event =
    PointerDown real real real real real nat
  | PointerMove real real "(real \<times> real) option"
  | PointerUp

fun handle :: "real \<Rightarrow> event \<Rightarrow> game \<Rightarrow> game" where
  "handle tol (PointerDown now cx cy bl bt pieceId) g = handlePointerDown now cx cy bl bt pieceId g"
| "handle tol (PointerMove cx cy board) g = handlePointerMove cx cy board g"
| "handle tol PointerUp g = handlePointerUp tol g"

definition step :: "real \<Rightarrow> event \<Rightarrow> game \<Rightarrow> game" where
  "step tol ev g = check_completion (handle tol ev g)"

definition play :: "real \<Rightarrow> event list \<Rightarrow> game \<Rightarrow> game" where
  "play tol evs g = fold (step tol) evs g"

text \<open>A piece as the generator emits it, with a given id and correct position, for examples.\<close>

definition example_piece :: "nat \<Rightarrow> real \<Rightarrow> real \<Rightarrow> PuzzlePiece" where
  "example_piece k x y =
    \<lparr> piece_id = k, row = 0, col = k,
      correctPos = \<lparr> xc = x, yc = y \<rparr>, currentPos = \<lparr> xc = 0, yc = 0 \<rparr>,
      shape = \<lparr> top_edge = 0, right = 0, bottom = 0, left = 0 \<rparr>,
      imgUrl = [], width = 140, height = 140, isLocked = False, zIndex = 1 \<rparr>"

text \<open>
  The invariant of play: piece ids are pairwise different, a locked piece sits at its
  correct position, and the piece being dragged is not locked.
\<close>

definition game_inv :: "game \<Rightarrow> bool" where
  "game_inv g =
    (distinct (map piece_id (pieces g))
     \<and> (\<forall>p \<in> set (pieces g). isLocked p \<longrightarrow> currentPos p = correctPos p)
     \<and> (\<forall>d. draggedPieceId g = Some d \<longrightarrow>
            (\<forall>p \<in> set (pieces g). piece_id p = d \<longrightarrow> \<not> isLocked p)))"

section \<open>Properties of the Layout Planner\<close>

lemmas model_defs = onload_def layout_def Let_def generate_shapes_def init_shapes_def assign_cell_def
     write_cell_def read_cell_def modify_cell_def coin_def rasterize_def raster_cell_def make_piece_def
     generatePuzzle_def

lemmas game_defs = new_game_def example_piece_def play_def step_def check_completion_def
  handlePointerDown_def handlePointerMove_def handlePointerUp_def snap_dist_def Let_def

lemma rows_cols_pos:
  assumes "0 < gridSize" "0 < imgW" "0 < imgH"
  shows "1 \<le> rows (layout t imgW imgH gridSize maxW maxH) \<and> 1 \<le> cols (layout t imgW imgH gridSize maxW maxH)"
proof (cases "imgW / imgH \<ge> 1")
  case True
  have "1 \<le> real_of_int gridSize" using assms by simp
  then have "1 * 1 \<le> real_of_int gridSize * (imgW / imgH)" using True by (intro mult_mono) auto
  then have "round (1::real) \<le> round (real_of_int gridSize * (imgW / imgH))" by (intro round_mono) simp
  then show ?thesis using True assms by (simp add: layout_def Let_def)
next
  case False
  then have lt: "imgW / imgH < 1" by simp
  have pos: "0 < imgW / imgH" using assms by simp
  have "imgW < imgH" using lt assms by (simp add: field_simps)
  then have "1 \<le> 1 / (imgW / imgH)" using assms by (simp add: field_simps)
  moreover have "1 \<le> real_of_int gridSize" using assms by simp
  ultimately have "1 * 1 \<le> real_of_int gridSize * (1 / (imgW / imgH))" by (intro mult_mono) auto
  then have "round (1::real) \<le> round (real_of_int gridSize * (1 / (imgW / imgH)))" by (intro round_mono) simp
  then show ?thesis using False assms by (simp add: layout_def Let_def)
qed

subsection \<open>Rounding to the nearest double\<close>

lemma rne_err: "\<bar>of_int (rne y) - y\<bar> \<le> 1/2"
  unfolding rne_def Let_def by (auto; linarith)

lemma two_powr_int: "(2::real) powr (of_int k) = 2 powi k"
  by (simp add: powr_real_of_int')

lemma floor_log2: 
  assumes "0 < x" shows "2 powi \<lfloor>log 2 x\<rfloor> \<le> x" "x < 2 powi (\<lfloor>log 2 x\<rfloor> + 1)"
proof -
  have "2 powr (of_int \<lfloor>log 2 x\<rfloor>) \<le> x"
    using le_log_iff[of 2 x "of_int \<lfloor>log 2 x\<rfloor>"] assms by simp
  thus "2 powi \<lfloor>log 2 x\<rfloor> \<le> x" unfolding two_powr_int .
  have "log 2 x < of_int (\<lfloor>log 2 x\<rfloor> + 1)" by linarith
  hence "x < 2 powr (of_int (\<lfloor>log 2 x\<rfloor> + 1))"
    using log_less_iff[of 2 x "of_int (\<lfloor>log 2 x\<rfloor> + 1)"] assms by simp
  thus "x < 2 powi (\<lfloor>log 2 x\<rfloor> + 1)" unfolding two_powr_int .
qed

lemma floor_log2_eq:
  assumes "2 powi k \<le> x" "x < 2 powi (k + 1)" shows "\<lfloor>log 2 x\<rfloor> = k"
proof -
  have "(0::real) < 2 powi k" by simp
  hence x: "0 < x" using assms(1) by linarith
  have "2 powr (of_int k) \<le> x" using assms(1) unfolding two_powr_int .
  hence a: "of_int k \<le> log 2 x" using le_log_iff[of 2 x "of_int k"] x by simp
  have "x < 2 powr (of_int (k + 1))" using assms(2) unfolding two_powr_int .
  hence b: "log 2 x < of_int (k + 1)" using log_less_iff[of 2 x "of_int (k + 1)"] x by simp
  show ?thesis using a b by (simp add: floor_eq_iff)
qed

lemma fl_eval:
  assumes "2 powi k \<le> \<bar>x\<bar>" "\<bar>x\<bar> < 2 powi (k + 1)"
  shows "fl x = of_int (rne (x / 2 powi (k - 52))) * 2 powi (k - 52)"
proof -
  have "(0::real) < 2 powi k" by simp
  hence "x \<noteq> 0" using assms(1) by linarith
  thus ?thesis unfolding fl_def Let_def floor_log2_eq[OF assms] by simp
qed

lemma fl_err:
  assumes "0 < x"
  shows "\<bar>fl x - x\<bar> \<le> x * eps"
proof -
  define k where "k = \<lfloor>log 2 \<bar>x\<bar>\<rfloor>"
  define s :: real where "s = 2 powi (k - 52)"
  have ax: "\<bar>x\<bar> = x" using assms by simp
  have lo: "2 powi k \<le> x" using floor_log2(1)[OF assms] unfolding k_def ax .
  have s: "0 < s" unfolding s_def by simp
  have fx: "fl x = of_int (rne (x / s)) * s"
    using assms unfolding fl_def Let_def k_def s_def by simp
  have "\<bar>of_int (rne (x / s)) - x / s\<bar> \<le> 1/2" by (rule rne_err)
  hence "\<bar>of_int (rne (x / s)) - x / s\<bar> * s \<le> 1/2 * s"
    using s by (simp add: mult_right_mono)
  moreover have "\<bar>of_int (rne (x / s)) - x / s\<bar> * s = \<bar>fl x - x\<bar>"
  proof -
    have "\<bar>of_int (rne (x / s)) - x / s\<bar> * s = \<bar>of_int (rne (x / s)) - x / s\<bar> * \<bar>s\<bar>"
      using s by simp
    also have "\<dots> = \<bar>(of_int (rne (x / s)) - x / s) * s\<bar>" by (rule abs_mult[symmetric])
    also have "(of_int (rne (x / s)) - x / s) * s = fl x - x"
      using s unfolding fx by (simp add: left_diff_distrib)
    finally show ?thesis .
  qed
  ultimately have e: "\<bar>fl x - x\<bar> \<le> s / 2" by simp
  have "s = 2 powi (k + (-52))" unfolding s_def by simp
  also have "\<dots> = 2 powi k * 2 powi (-52)" by (rule power_int_add) simp
  finally have "s / 2 = 2 powi k * (2 powi (-52) / 2)" by simp
  also have "(2::real) powi (-52) / 2 = eps" unfolding eps_def by simp
  finally have "s / 2 = 2 powi k * eps" .
  also have "\<dots> \<le> x * eps" using lo unfolding eps_def by (simp add: mult_right_mono)
  finally show ?thesis using e by linarith
qed

lemma fl_rel:
  assumes "0 < x"
  shows "x * (1 - eps) \<le> fl x" "fl x \<le> x * (1 + eps)"
  using fl_err[OF assms] by (simp_all add: algebra_simps abs_le_iff)

lemma eps_bounds: "0 < eps" "eps < 1"
  unfolding eps_def by simp_all

lemma fl_pos: "0 < x \<Longrightarrow> 0 < fl x"
proof -
  assume x: "0 < x"
  have "0 < x * (1 - eps)" using x eps_bounds by simp
  thus ?thesis using fl_rel(1)[OF x] by linarith
qed

text \<open>Some doubles, and some quotients and products that are not.\<close>

lemma fl_example_values:
  "fl 1 = 1" "fl 2 = 2" "fl 10 = 10" "fl 250 = 250"
     apply (subst fl_eval[where k = 0]; simp add: rne_def Let_def)
    apply (subst fl_eval[where k = 1]; simp add: rne_def Let_def)
   apply (subst fl_eval[where k = 3]; simp add: rne_def Let_def)
  apply (subst fl_eval[where k = 7]; simp add: rne_def Let_def)
  done

lemma fl_9_7: "fl (9 / 7) = 5790342378047781 / 4503599627370496"
  by (subst fl_eval[where k = 0]) (simp_all add: rne_def Let_def)

lemma fl_overshoot: "fl (700 * fl (9 / 7)) = 900 + 2 powi (-43)"
  unfolding fl_9_7 by (subst fl_eval[where k = 9]) (simp_all add: rne_def Let_def)

lemma fl_10_13: "fl (10 / 13) = 6928614811339225 / 9007199254740992"
  by (subst fl_eval[where k = "-1"]) (simp_all add: rne_def Let_def)

lemma fl_13_10: "fl (1 / fl (10 / 13)) = 1463669878895411 / 1125899906842624"
  unfolding fl_10_13 by (subst fl_eval[where k = 0]) (simp_all add: rne_def Let_def)

lemma fl_rows: "fl (5 * fl (1 / fl (10 / 13))) = 7318349394477055 / 1125899906842624"
  unfolding fl_13_10 by (subst fl_eval[where k = 2]) (simp_all add: rne_def Let_def)

subsection \<open>The planner in double precision\<close>

lemma layout_exact:
  "layout_in (\<lambda>x. x) t imgW imgH g maxW maxH = layout t imgW imgH g maxW maxH"
  by (simp add: layout_in_def layout_def)

lemma fit_tall:
  fixes u R mw mh a c pw :: real
  assumes u: "0 < u" "u \<le> 1/2" and pos: "0 < R" "0 < mw" "0 < mh"
    and a: "R * (1 - u) \<le> a" "a \<le> R * (1 + u)"
    and c: "c \<le> mw / mh * (1 + u)" and ac: "a \<le> c"
    and pw: "mh * a * (1 - u) \<le> pw" "pw \<le> mh * a * (1 + u)"
  shows "pw \<le> mw * (1 + 4 * u)" "\<bar>pw / mh - R\<bar> \<le> 4 * u * R"
proof -
  have sq: "(1 + u) * (1 + u) \<le> 1 + 4 * u"
  proof -
    have "u * u \<le> u * 1" using u by (intro mult_left_mono) simp_all
    thus ?thesis using u by (simp add: algebra_simps)
  qed
  have sq': "1 - 4 * u \<le> (1 - u) * (1 - u)"
  proof -
    have "0 \<le> u * u" by simp
    thus ?thesis using u by (simp add: algebra_simps)
  qed
  have apos: "0 < a"
  proof -
    have "0 < R * (1 - u)" using pos u by simp
    thus ?thesis using a by linarith
  qed
  have "a \<le> mw * (1 + u) / mh" using ac c by simp
  hence 1: "mh * a \<le> mw * (1 + u)" using pos by (simp add: field_simps)
  have "mh * a * (1 + u) \<le> mw * (1 + u) * (1 + u)" using 1 u by (simp add: mult_right_mono)
  also have "\<dots> = mw * ((1 + u) * (1 + u))" by simp
  also have "\<dots> \<le> mw * (1 + 4 * u)" using sq pos by (simp only: mult_left_mono less_imp_le)
  finally show "pw \<le> mw * (1 + 4 * u)" using pw by linarith
  have up: "pw / mh \<le> R * (1 + 4 * u)"
  proof -
    have "pw / mh \<le> a * (1 + u)" using pw(2) pos by (simp add: field_simps)
    also have "\<dots> \<le> R * (1 + u) * (1 + u)" using a(2) u by (simp add: mult_right_mono)
    also have "\<dots> = R * ((1 + u) * (1 + u))" by simp
    also have "\<dots> \<le> R * (1 + 4 * u)" using sq pos by (simp only: mult_left_mono less_imp_le)
    finally show ?thesis .
  qed
  have lo: "R * (1 - 4 * u) \<le> pw / mh"
  proof -
    have "R * (1 - 4 * u) \<le> R * ((1 - u) * (1 - u))"
      using sq' pos by (simp only: mult_left_mono less_imp_le)
    also have "\<dots> = R * (1 - u) * (1 - u)" by simp
    also have "\<dots> \<le> a * (1 - u)" using a(1) u by (simp add: mult_right_mono)
    also have "\<dots> \<le> pw / mh" using pw(1) pos by (simp add: field_simps)
    finally show ?thesis .
  qed
  show "\<bar>pw / mh - R\<bar> \<le> 4 * u * R" using up lo by (simp add: abs_le_iff algebra_simps)
qed

lemma fit_wide:
  fixes u R mw mh a c ph :: real
  assumes u: "0 < u" "u \<le> 1/2" and pos: "0 < R" "0 < mw" "0 < mh"
    and a: "R * (1 - u) \<le> a" "a \<le> R * (1 + u)"
    and c: "mw / mh * (1 - u) \<le> c" and ac: "c < a"
    and ph: "mw / a * (1 - u) \<le> ph" "ph \<le> mw / a * (1 + u)"
  shows "ph \<le> mh * (1 + 4 * u)" "\<bar>mw / ph - R\<bar> \<le> 4 * u * R"
proof -
  have k1: "1 + u \<le> (1 + 4 * u) * (1 - u)"
  proof -
    have "u * u \<le> 1/2 * u" using u by (simp add: mult_right_mono)
    thus ?thesis by (simp add: algebra_simps)
  qed
  have k2: "(1 - 4 * u) * (1 + u) \<le> 1 - u"
  proof -
    have "0 \<le> u * u" by simp
    thus ?thesis using u by (simp add: algebra_simps)
  qed
  have u1: "0 < 1 - u" "0 < 1 + u" using u by simp_all
  have apos: "0 < a"
  proof -
    have "0 < R * (1 - u)" using pos u by simp
    thus ?thesis using a by linarith
  qed
  have phpos: "0 < ph"
  proof -
    have "0 < mw / a * (1 - u)" using pos apos u1 by simp
    thus ?thesis using ph by linarith
  qed
  have pa1: "mw * (1 - u) \<le> ph * a" using ph(1) apos by (simp add: field_simps)
  have pa2: "ph * a \<le> mw * (1 + u)" using ph(2) apos by (simp add: field_simps)
  have cm: "mw * (1 - u) \<le> c * mh" using c pos by (simp add: field_simps)
  have "c * mh < a * mh" using ac pos by simp
  hence am: "mw * (1 - u) < a * mh" using cm by linarith
  have "ph * a * (1 - u) \<le> mw * (1 + u) * (1 - u)" using pa2 u1 by (simp add: mult_right_mono)
  also have "\<dots> = mw * (1 - u) * (1 + u)" by simp
  also have "\<dots> \<le> a * mh * (1 + u)" using am u1 by (simp add: mult_right_mono)
  finally have "a * (ph * (1 - u)) \<le> a * (mh * (1 + u))" by (simp add: mult.assoc mult.left_commute)
  hence "ph * (1 - u) \<le> mh * (1 + u)" using apos by simp
  also have "\<dots> \<le> mh * ((1 + 4 * u) * (1 - u))" using k1 pos by (simp only: mult_left_mono less_imp_le)
  finally have "ph * (1 - u) \<le> (mh * (1 + 4 * u)) * (1 - u)" by (simp add: mult.assoc)
  thus "ph \<le> mh * (1 + 4 * u)" using u1 by simp
  have up: "mw \<le> R * (1 + 4 * u) * ph"
  proof -
    have "ph * a \<le> ph * (R * (1 + u))" using a(2) phpos by (simp add: mult_left_mono)
    hence "mw * (1 - u) \<le> ph * R * (1 + u)" using pa1 by (simp add: mult.assoc)
    also have "\<dots> \<le> ph * R * ((1 + 4 * u) * (1 - u))"
      using k1 phpos pos by (simp only: mult_left_mono less_imp_le mult_pos_pos)
    finally have "mw * (1 - u) \<le> (R * (1 + 4 * u) * ph) * (1 - u)" by (simp add: mult_ac)
    thus ?thesis using u1 by simp
  qed
  have lo: "R * (1 - 4 * u) * ph \<le> mw"
  proof -
    have "ph * R * ((1 - 4 * u) * (1 + u)) \<le> ph * R * (1 - u)"
      using k2 phpos pos by (simp only: mult_left_mono less_imp_le mult_pos_pos)
    also have "\<dots> = ph * (R * (1 - u))" by simp
    also have "\<dots> \<le> ph * a" using a(1) phpos by (simp add: mult_left_mono)
    also have "\<dots> \<le> mw * (1 + u)" by (rule pa2)
    finally have "(R * (1 - 4 * u) * ph) * (1 + u) \<le> mw * (1 + u)" by (simp add: mult_ac)
    thus ?thesis using u1 by simp
  qed
  have "mw / ph \<le> R * (1 + 4 * u)" using up phpos by (simp add: field_simps)
  moreover have "R * (1 - 4 * u) \<le> mw / ph" using lo phpos by (simp add: field_simps)
  ultimately show "\<bar>mw / ph - R\<bar> \<le> 4 * u * R" by (simp add: abs_le_iff algebra_simps)
qed

lemma in_range_pos: "in_range x \<Longrightarrow> 0 < x"
proof -
  assume "in_range x"
  moreover have "(0::real) < 2 powi (-100)" by simp
  ultimately show ?thesis unfolding in_range_def by linarith
qed

lemma puzzle_size_layout_in:
  "puzzleWidth (layout_in rnd T imgW imgH g mw mh) =
     (if rnd (imgW / imgH) > rnd (mw / mh) then mw else rnd (mh * rnd (imgW / imgH)))"
  "puzzleHeight (layout_in rnd T imgW imgH g mw mh) =
     (if rnd (imgW / imgH) > rnd (mw / mh) then rnd (mw / rnd (imgW / imgH)) else mh)"
  by (simp_all add: layout_in_def Let_def)

lemma grid_layout_in:
  "rows (layout_in rnd T imgW imgH g mw mh) =
     (if rnd (imgW / imgH) \<ge> 1 then g else round (rnd (of_int g * rnd (1 / rnd (imgW / imgH)))))"
  "cols (layout_in rnd T imgW imgH g mw mh) =
     (if rnd (imgW / imgH) \<ge> 1 then round (rnd (of_int g * rnd (imgW / imgH))) else g)"
  by (simp_all add: layout_in_def Let_def)

lemma piece_size_layout_in:
  "pieceWidth (layout_in rnd T imgW imgH g mw mh) =
     rnd (puzzleWidth (layout_in rnd T imgW imgH g mw mh)
          / of_int (cols (layout_in rnd T imgW imgH g mw mh)))"
  "pieceHeight (layout_in rnd T imgW imgH g mw mh) =
     rnd (puzzleHeight (layout_in rnd T imgW imgH g mw mh)
          / of_int (rows (layout_in rnd T imgW imgH g mw mh)))"
  by (simp_all add: layout_in_def Let_def split: prod.splits)

lemma eps4: "4 * eps = 2 powi (-51)"
  unfolding eps_def by simp

lemma aspect_fit_eps:
  assumes "0 < imgW" "0 < imgH" "0 < mw" "0 < mh"
  shows "puzzleWidth (layout_in fl T imgW imgH g mw mh) \<le> mw * (1 + 4 * eps)"
    and "puzzleHeight (layout_in fl T imgW imgH g mw mh) \<le> mh * (1 + 4 * eps)"
    and "puzzleWidth (layout_in fl T imgW imgH g mw mh) = mw
         \<or> puzzleHeight (layout_in fl T imgW imgH g mw mh) = mh"
    and "\<bar>puzzleWidth (layout_in fl T imgW imgH g mw mh)
          / puzzleHeight (layout_in fl T imgW imgH g mw mh) - imgW / imgH\<bar>
         \<le> 4 * eps * (imgW / imgH)"
proof -
  define R where "R = imgW / imgH"
  define a where "a = fl R"
  define c where "c = fl (mw / mh)"
  have R: "0 < R" unfolding R_def using assms by simp
  have C: "0 < mw / mh" using assms by simp
  have u: "0 < eps" "eps \<le> 1/2" unfolding eps_def by simp_all
  have a: "R * (1 - eps) \<le> a" "a \<le> R * (1 + eps)" unfolding a_def by (rule fl_rel[OF R])+
  have c: "mw / mh * (1 - eps) \<le> c" "c \<le> mw / mh * (1 + eps)"
    unfolding c_def by (rule fl_rel[OF C])+
  have apos: "0 < a" unfolding a_def by (rule fl_pos[OF R])
  have pw: "puzzleWidth (layout_in fl T imgW imgH g mw mh) = (if a > c then mw else fl (mh * a))"
    and ph: "puzzleHeight (layout_in fl T imgW imgH g mw mh) = (if a > c then fl (mw / a) else mh)"
    unfolding puzzle_size_layout_in a_def c_def R_def by simp_all
  have m1: "mw \<le> mw * (1 + 4 * eps)" "mh \<le> mh * (1 + 4 * eps)"
    using assms u by (simp_all add: algebra_simps)
  show "puzzleWidth (layout_in fl T imgW imgH g mw mh) = mw
         \<or> puzzleHeight (layout_in fl T imgW imgH g mw mh) = mh"
    unfolding pw ph by simp
  show "puzzleWidth (layout_in fl T imgW imgH g mw mh) \<le> mw * (1 + 4 * eps)"
  proof (cases "a > c")
    case True thus ?thesis unfolding pw using m1 by simp
  next
    case False
    hence ac: "a \<le> c" by simp
    have p: "0 < mh * a" using assms apos by simp
    have "fl (mh * a) \<le> mw * (1 + 4 * eps)"
      by (rule fit_tall(1)[OF u R assms(3,4) a c(2) ac fl_rel[OF p]])
    thus ?thesis unfolding pw using False by simp
  qed
  show "puzzleHeight (layout_in fl T imgW imgH g mw mh) \<le> mh * (1 + 4 * eps)"
  proof (cases "a > c")
    case True
    have p: "0 < mw / a" using assms apos by simp
    have "fl (mw / a) \<le> mh * (1 + 4 * eps)"
      by (rule fit_wide(1)[OF u R assms(3,4) a c(1) True fl_rel[OF p]])
    thus ?thesis unfolding ph using True by simp
  next
    case False thus ?thesis unfolding ph using m1 by simp
  qed
  show "\<bar>puzzleWidth (layout_in fl T imgW imgH g mw mh)
          / puzzleHeight (layout_in fl T imgW imgH g mw mh) - imgW / imgH\<bar>
         \<le> 4 * eps * (imgW / imgH)"
  proof (cases "a > c")
    case True
    have p: "0 < mw / a" using assms apos by simp
    have "\<bar>mw / fl (mw / a) - R\<bar> \<le> 4 * eps * R"
      by (rule fit_wide(2)[OF u R assms(3,4) a c(1) True fl_rel[OF p]])
    thus ?thesis unfolding pw ph R_def using True by simp
  next
    case False
    hence ac: "a \<le> c" by simp
    have p: "0 < mh * a" using assms apos by simp
    have "\<bar>fl (mh * a) / mh - R\<bar> \<le> 4 * eps * R"
      by (rule fit_tall(2)[OF u R assms(3,4) a c(2) ac fl_rel[OF p]])
    thus ?thesis unfolding pw ph R_def using False by simp
  qed
qed

lemma round_ge_1: "1 / 2 \<le> (y::real) \<Longrightarrow> 1 \<le> round y"
  unfolding round_def by linarith

lemma fl_ge_half:
  assumes "1 - eps \<le> x"
  shows "1 / 2 \<le> fl x"
proof -
  have e: "0 < eps" "eps \<le> 1 / 4" unfolding eps_def by simp_all
  have x: "0 < x" using assms e by linarith
  have "(1 - eps) * (1 - eps) \<le> x * (1 - eps)" using assms e by (intro mult_right_mono) simp_all
  moreover have "1 / 2 \<le> (1 - eps) * (1 - eps)"
  proof -
    have "(1 - eps) * (1 - eps) = 1 - 2 * eps + eps * eps" by (simp add: algebra_simps)
    moreover have "0 \<le> eps * eps" by simp
    ultimately show ?thesis using e by linarith
  qed
  ultimately show ?thesis using fl_rel(1)[OF x] by linarith
qed

lemma rows_cols_pos_fl:
  assumes g: "0 < gridSize" and w: "0 < imgW" and h: "0 < imgH"
  shows "1 \<le> rows (layout_in fl t imgW imgH gridSize maxW maxH)"
    and "1 \<le> cols (layout_in fl t imgW imgH gridSize maxW maxH)"
proof -
  define a where "a = fl (imgW / imgH)"
  have R: "0 < imgW / imgH" using w h by simp
  have apos: "0 < a" unfolding a_def by (rule fl_pos[OF R])
  have e: "0 < eps" "eps < 1" by (rule eps_bounds)+
  have g1: "1 \<le> real_of_int gridSize" using g by simp
  have rc: "rows (layout_in fl t imgW imgH gridSize maxW maxH)
              = (if a \<ge> 1 then gridSize else round (fl (of_int gridSize * fl (1 / a))))"
    "cols (layout_in fl t imgW imgH gridSize maxW maxH)
              = (if a \<ge> 1 then round (fl (of_int gridSize * a)) else gridSize)"
    unfolding grid_layout_in a_def by simp_all
  have "1 \<le> rows (layout_in fl t imgW imgH gridSize maxW maxH)
      \<and> 1 \<le> cols (layout_in fl t imgW imgH gridSize maxW maxH)"
  proof (cases "a \<ge> 1")
    case True
    have "1 * 1 \<le> real_of_int gridSize * a" using g1 True by (intro mult_mono) simp_all
    hence "1 - eps \<le> real_of_int gridSize * a" using e by linarith
    hence "1 \<le> round (fl (real_of_int gridSize * a))" by (intro round_ge_1 fl_ge_half)
    thus ?thesis unfolding rc using True g by simp
  next
    case False
    hence lt: "a < 1" by simp
    have i: "1 \<le> 1 / a" using lt apos by (simp add: field_simps)
    have ipos: "0 < 1 / a" using apos by simp
    have "1 - eps \<le> 1 / a * (1 - eps)" using mult_right_mono[OF i, of "1 - eps"] e by simp
    hence f: "1 - eps \<le> fl (1 / a)" using fl_rel(1)[OF ipos] by linarith
    have fpos: "0 \<le> fl (1 / a)" using fl_pos[OF ipos] by simp
    have "fl (1 / a) \<le> real_of_int gridSize * fl (1 / a)"
      using mult_right_mono[OF g1 fpos] by simp
    hence "1 - eps \<le> real_of_int gridSize * fl (1 / a)" using f by linarith
    hence "1 \<le> round (fl (real_of_int gridSize * fl (1 / a)))" by (intro round_ge_1 fl_ge_half)
    thus ?thesis unfolding rc using False g by simp
  qed
  thus "1 \<le> rows (layout_in fl t imgW imgH gridSize maxW maxH)"
    and "1 \<le> cols (layout_in fl t imgW imgH gridSize maxW maxH)" by simp_all
qed

lemma scenario_fl:
  "puzzleWidth (layout_in fl t 800 400 5 500 500) = 500"
  "puzzleHeight (layout_in fl t 800 400 5 500 500) = 250"
  "rows (layout_in fl t 800 400 5 500 500) = 5"
  "cols (layout_in fl t 800 400 5 500 500) = 10"
  by (simp_all add: puzzle_size_layout_in grid_layout_in fl_example_values)

text \<open>
  A 100 by 130 image at grid size 5: the rule in exact arithmetic has
  \<open>5 * (1 / (100 / 130)) = 6.5\<close> and 7 rows, the program has \<open>6.499999999999999\<close> and
  6 rows.
\<close>

lemma grid_rounding_example:
  "rows (layout_in fl t 100 130 5 maxW maxH) = 6
   \<and> cols (layout_in fl t 100 130 5 maxW maxH) = 5
   \<and> spec_grid 5 (100 / 130) = (7, 5)"
proof -
  have lt: "\<not> 1 \<le> fl (10 / 13)" unfolding fl_10_13 by simp
  have "rows (layout_in fl t 100 130 5 maxW maxH) = round (fl (5 * fl (1 / fl (10 / 13))))"
    using lt by (simp add: grid_layout_in)
  also have "\<dots> = 6" unfolding fl_rows by (simp add: round_def)
  finally have r: "rows (layout_in fl t 100 130 5 maxW maxH) = 6" .
  have c: "cols (layout_in fl t 100 130 5 maxW maxH) = 5"
    using lt by (simp add: grid_layout_in)
  have "spec_grid 5 (100 / 130) = (7, 5)" by (simp add: spec_grid_def round_def)
  with r c show ?thesis by simp
qed

text \<open>
  Claim C5 as stated fails when the quotient of the image is rounded up: for a 900 by 700
  image in bounds of 900 by 700 the two aspect ratios are the same double, a little above
  \<open>9/7\<close>, the height is the bound 700, and the width \<open>700 * imageAspect\<close> rounds to the
  double after 900, which is above the bound.
\<close>

theorem aspect_fit_overshoot:
  "puzzleWidth (layout_in fl (1 / 5) 900 700 3 900 700) = 900 + 2 powi (-43)
   \<and> 900 < puzzleWidth (layout_in fl (1 / 5) 900 700 3 900 700)"
  by (simp add: puzzle_size_layout_in fl_overshoot)

text \<open>
  Claim C5 with the tolerance of the arithmetic. For image dimensions and bounds in the
  range of \<open>in_range\<close> the puzzle exceeds neither bound by more than the relative error
  \<open>2 powi (-51)\<close>, one of the two sizes is its bound exactly, and the quotient of width
  and height differs from the aspect ratio of the image by at most that relative error.
\<close>

theorem aspect_fit_rounded:
  assumes "in_range imgW" "in_range imgH" "in_range maxW" "in_range maxH"
  shows "puzzleWidth (layout_in fl t imgW imgH g maxW maxH) \<le> maxW * (1 + 2 powi (-51))
       \<and> puzzleHeight (layout_in fl t imgW imgH g maxW maxH) \<le> maxH * (1 + 2 powi (-51))
       \<and> (puzzleWidth (layout_in fl t imgW imgH g maxW maxH) = maxW
          \<or> puzzleHeight (layout_in fl t imgW imgH g maxW maxH) = maxH)
       \<and> \<bar>puzzleWidth (layout_in fl t imgW imgH g maxW maxH)
            / puzzleHeight (layout_in fl t imgW imgH g maxW maxH) - imgW / imgH\<bar>
           \<le> 2 powi (-51) * (imgW / imgH)"
  using aspect_fit_eps[OF assms[THEN in_range_pos], of t g]
  unfolding eps4 by blast

theorem aspect_fit_rounded_witness:
  "in_range 900 \<and> in_range 700
   \<and> puzzleWidth (layout_in fl (1 / 5) 900 700 3 900 700) \<le> 900 * (1 + 2 powi (-51))
   \<and> puzzleHeight (layout_in fl (1 / 5) 900 700 3 900 700) = 700
   \<and> \<bar>puzzleWidth (layout_in fl (1 / 5) 900 700 3 900 700)
        / puzzleHeight (layout_in fl (1 / 5) 900 700 3 900 700) - 900 / 700\<bar>
       \<le> 2 powi (-51) * (900 / 700)"
proof -
  have r: "in_range 900" "in_range 700" by (simp_all add: in_range_def)
  have h: "puzzleHeight (layout_in fl (1 / 5) 900 700 3 900 700) = 700"
    by (simp add: puzzle_size_layout_in)
  show ?thesis using aspect_fit_rounded[OF r(1) r(2) r(1) r(2), of "1 / 5" 3] r h by simp
qed

section \<open>Properties of the Shape Assigner\<close>

lemma write_cell_put:
  "r < length g \<Longrightarrow> c < length (g ! r) \<Longrightarrow> write_cell g r c s = Some (put g r c s)"
  by (simp add: write_cell_def put_def)

lemma length_put [simp]: "length (put g r c s) = length g"
  by (simp add: put_def)

lemma length_put_row [simp]: "length (put g r c s ! r') = length (g ! r')"
  by (cases "r < length g"; cases "r' = r") (simp_all add: put_def list_update_beyond)

lemma read_cell_put:
  "r < length g \<Longrightarrow> c < length (g ! r) \<Longrightarrow>
   read_cell (put g r c s) r' c' = (if r' = r \<and> c' = c then Some s else read_cell g r' c')"
  by (cases "r' = r"; cases "c' = c") (auto simp add: read_cell_def put_def)

lemma put_put [simp]: "put (put g r c s) r c s' = put g r c s'"
  by (cases "r < length g") (simp_all add: put_def list_update_beyond)

lemma modify_cell_put:
  "r < length g \<Longrightarrow> c < length (g ! r) \<Longrightarrow>
   modify_cell (put g r c s) r c f = Some (put g r c (f s))"
  by (simp add: modify_cell_def read_cell_put write_cell_put)

lemma read_cell_put_upper:
  "r < length g \<Longrightarrow> c < length (g ! r) \<Longrightarrow> 0 < r \<Longrightarrow>
   read_cell (put g r c s) (r - 1) c' = read_cell g (r - 1) c'"
  by (auto simp add: read_cell_put)

lemma read_cell_put_prev:
  "r < length g \<Longrightarrow> c < length (g ! r) \<Longrightarrow> 0 < c \<Longrightarrow>
   read_cell (put g r c s) r (c - 1) = read_cell g r (c - 1)"
  by (auto simp add: read_cell_put)

lemma assign_cell_closed:
  assumes r: "r < length (shapes st)" and c: "c < length (shapes st ! r)"
    and upper: "0 < r \<Longrightarrow> read_cell (shapes st) (r - 1) c = Some upper"
    and prev: "0 < c \<Longrightarrow> read_cell (shapes st) r (c - 1) = Some prev"
  shows "assign_cell rand rs cs r c st =
     Some \<lparr> shapes = put (shapes st) r c
               \<lparr> top_edge = (if 0 < r then - bottom upper else 0),
                 right = (if int c < cs - 1 then coin rand (drawn st) else 0),
                 bottom = (if int r < rs - 1
                           then coin rand (if int c < cs - 1 then drawn st + 1 else drawn st)
                           else 0),
                 left = (if 0 < c then - right prev else 0) \<rparr>,
             drawn = drawn st + (if int c < cs - 1 then 1 else 0)
                              + (if int r < rs - 1 then 1 else 0) \<rparr>"
  using r c upper prev
  by (cases "0 < r"; cases "0 < c"; cases "int c < cs - 1"; cases "int r < rs - 1")
     (simp_all add: assign_cell_def write_cell_put modify_cell_put
        read_cell_put_upper read_cell_put_prev del: One_nat_def)

lemma coin_cases: "coin rand k = 1 \<or> coin rand k = - 1"
  by (simp add: coin_def)

lemma cell_ok_put:
  assumes ok: "cell_ok rs cs g i j" and e: "earlier i j r c"
    and r: "r < length g" and c: "c < length (g ! r)"
  shows "cell_ok rs cs (put g r c s) i j"
proof -
  have n1: "i \<noteq> r \<or> j \<noteq> c" using e unfolding earlier_def by arith
  have n2: "i - 1 \<noteq> r \<or> j \<noteq> c" using e unfolding earlier_def by arith
  have n3: "i \<noteq> r \<or> j - 1 \<noteq> c" using e unfolding earlier_def by arith
  have e1: "read_cell (put g r c s) i j = read_cell g i j"
    unfolding read_cell_put[OF r c] using n1 by (rule disjE) simp_all
  have e2: "read_cell (put g r c s) (i - 1) j = read_cell g (i - 1) j"
    unfolding read_cell_put[OF r c] using n2 by (rule disjE) simp_all
  have e3: "read_cell (put g r c s) i (j - 1) = read_cell g i (j - 1)"
    unfolding read_cell_put[OF r c] using n3 by (rule disjE) simp_all
  show ?thesis
    using ok unfolding cell_ok_def e1 e2 e3 .
qed

lemma assign_cell_step:
  assumes inv: "assigned rs cs r c (shapes st)" and r: "r < nat rs" and c: "c < nat cs"
  shows "\<exists>st'. assign_cell rand rs cs r c st = Some st' \<and> assigned rs cs r (Suc c) (shapes st')"
proof -
  let ?g = "shapes st"
  have len: "length ?g = nat rs" and rowlen: "\<And>i. i < nat rs \<Longrightarrow> length (?g ! i) = nat cs"
    and oks: "\<And>i j. j < nat cs \<Longrightarrow> earlier i j r c \<Longrightarrow> cell_ok rs cs ?g i j"
    using inv by (auto simp: assigned_def)
  have rl: "r < length ?g" and cl: "c < length (?g ! r)"
    using r c len rowlen by auto
  have up: "\<exists>u. 0 < r \<longrightarrow> read_cell ?g (r - 1) c = Some u"
  proof (cases "0 < r")
    case True
    then have "cell_ok rs cs ?g (r - 1) c" using oks[OF c] by (simp add: earlier_def)
    then show ?thesis by (auto simp: cell_ok_def)
  qed simp
  have pv: "\<exists>p. 0 < c \<longrightarrow> read_cell ?g r (c - 1) = Some p"
  proof (cases "0 < c")
    case True
    then have "cell_ok rs cs ?g r (c - 1)" using oks[of "c - 1" r] c by (simp add: earlier_def)
    then show ?thesis by (auto simp: cell_ok_def)
  qed simp
  from up obtain u where u: "0 < r \<Longrightarrow> read_cell ?g (r - 1) c = Some u" by blast
  from pv obtain p where p: "0 < c \<Longrightarrow> read_cell ?g r (c - 1) = Some p" by blast
  define s where "s = \<lparr> top_edge = (if 0 < r then - bottom u else 0),
                 right = (if int c < cs - 1 then coin rand (drawn st) else 0),
                 bottom = (if int r < rs - 1
                           then coin rand (if int c < cs - 1 then drawn st + 1 else drawn st)
                           else 0),
                 left = (if 0 < c then - right p else 0) \<rparr>"
  have closed: "assign_cell rand rs cs r c st =
     Some \<lparr> shapes = put ?g r c s,
             drawn = drawn st + (if int c < cs - 1 then 1 else 0)
                              + (if int r < rs - 1 then 1 else 0) \<rparr>"
    unfolding s_def using assign_cell_closed[OF rl cl u p] by simp
  have rd: "read_cell (put ?g r c s) r c = Some s"
    using rl cl by (simp add: read_cell_put)
  have rdu: "0 < r \<Longrightarrow> read_cell (put ?g r c s) (r - 1) c = Some u"
    using rl cl u by (simp add: read_cell_put_upper del: One_nat_def)
  have rdp: "0 < c \<Longrightarrow> read_cell (put ?g r c s) r (c - 1) = Some p"
    using rl cl p by (simp add: read_cell_put_prev del: One_nat_def)
  have fld: "top_edge s = (if 0 < r then - bottom u else 0)"
    "left s = (if 0 < c then - right p else 0)"
    "if int c < cs - 1 then right s = 1 \<or> right s = - 1 else right s = 0"
    "if int r < rs - 1 then bottom s = 1 \<or> bottom s = - 1 else bottom s = 0"
    using coin_cases[of rand] by (simp_all add: s_def)
  have t: "if 0 < r then \<exists>u'. read_cell (put ?g r c s) (r - 1) c = Some u' \<and> top_edge s = - bottom u'
           else top_edge s = 0"
    using rdu fld(1) by (cases "0 < r") simp_all
  have l: "if 0 < c then \<exists>p'. read_cell (put ?g r c s) r (c - 1) = Some p' \<and> left s = - right p'
           else left s = 0"
    using rdp fld(2) by (cases "0 < c") simp_all
  have new: "cell_ok rs cs (put ?g r c s) r c"
    unfolding cell_ok_def using rd t l fld(3,4) by blast
  have "assigned rs cs r (Suc c) (put ?g r c s)"
    unfolding assigned_def
  proof (intro conjI allI impI)
    show "length (put ?g r c s) = nat rs" using len by simp
  next
    fix i assume "i < nat rs"
    then show "length (put ?g r c s ! i) = nat cs" using rowlen by simp
  next
    fix i j assume a: "j < nat cs \<and> earlier i j r (Suc c)"
    show "cell_ok rs cs (put ?g r c s) i j"
    proof (cases "i = r \<and> j = c")
      case True
      then show ?thesis using new by simp
    next
      case False
      then have "earlier i j r c" using a by (auto simp: earlier_def)
      then show ?thesis using cell_ok_put[OF oks _ rl cl] a by blast
    qed
  qed
  then show ?thesis using closed by simp
qed

lemma for_each_upt:
  assumes "I a s"
    and step: "\<And>i s. a \<le> i \<Longrightarrow> i < b \<Longrightarrow> I i s \<Longrightarrow> \<exists>s'. body i s = Some s' \<and> I (Suc i) s'"
    and "a \<le> b"
  shows "\<exists>s'. for_each [a..<b] body s = Some s' \<and> I b s'"
  using assms
proof (induction "b - a" arbitrary: a s)
  case 0
  then show ?case by simp
next
  case (Suc n)
  then have lt: "a < b" by simp
  from Suc.prems(2)[OF le_refl lt Suc.prems(1)]
  obtain s1 where s1: "body a s = Some s1" "I (Suc a) s1" by blast
  have "\<exists>s'. for_each [Suc a..<b] body s1 = Some s' \<and> I b s'"
  proof (rule Suc.hyps(1))
    show "n = b - Suc a" using Suc.hyps(2) by simp
    show "I (Suc a) s1" by (rule s1)
    show "\<And>i s. Suc a \<le> i \<Longrightarrow> i < b \<Longrightarrow> I i s \<Longrightarrow> \<exists>s'. body i s = Some s' \<and> I (Suc i) s'"
      using Suc.prems(2) by simp
    show "Suc a \<le> b" using lt by simp
  qed
  then show ?case using s1 lt by (simp add: upt_conv_Cons)
qed

lemma assign_row:
  assumes inv: "assigned rs cs r 0 (shapes st)" and r: "r < nat rs"
  shows "\<exists>st'. for_each [0..<nat cs] (assign_cell rand rs cs r) st = Some st'
           \<and> assigned rs cs (Suc r) 0 (shapes st')"
proof -
  have "\<exists>st'. for_each [0..<nat cs] (assign_cell rand rs cs r) st = Some st'
           \<and> assigned rs cs r (nat cs) (shapes st')"
    by (rule for_each_upt[where I = "\<lambda>c st. assigned rs cs r c (shapes st)"])
       (use inv r assign_cell_step in auto)
  moreover have "assigned rs cs (Suc r) 0 g" if "assigned rs cs r (nat cs) g" for g
    using that by (auto simp: assigned_def earlier_def less_Suc_eq)
  ultimately show ?thesis by blast
qed

lemma generate_shapes_assigned:
  assumes "0 \<le> rs" "0 \<le> cs"
  shows "\<exists>a. generate_shapes rand rs cs = Some a \<and> assigned rs cs (nat rs) 0 (shapes a)"
proof -
  let ?g0 = "replicate (nat rs) (replicate (nat cs) None) :: shape_grid"
  have init: "init_shapes rs cs = Some ?g0" using assms by (simp add: init_shapes_def)
  have inv0: "assigned rs cs 0 0 (shapes \<lparr> shapes = ?g0, drawn = 0 \<rparr>)"
    by (simp add: assigned_def earlier_def)
  have "\<exists>a. for_each [0..<nat rs] (\<lambda>r. for_each [0..<nat cs] (assign_cell rand rs cs r))
               \<lparr> shapes = ?g0, drawn = 0 \<rparr> = Some a \<and> assigned rs cs (nat rs) 0 (shapes a)"
    by (rule for_each_upt[where I = "\<lambda>r st. assigned rs cs r 0 (shapes st)"])
       (use inv0 assign_row in auto)
  then show ?thesis by (simp add: generate_shapes_def init)
qed

lemma cell_okE:
  assumes "cell_ok rs cs g r c"
  obtains s where "read_cell g r c = Some s"
    and "r = 0 \<Longrightarrow> top_edge s = 0"
    and "0 < r \<Longrightarrow> \<exists>u. read_cell g (r - 1) c = Some u \<and> top_edge s = - bottom u"
    and "c = 0 \<Longrightarrow> left s = 0"
    and "0 < c \<Longrightarrow> \<exists>p. read_cell g r (c - 1) = Some p \<and> left s = - right p"
    and "int c < cs - 1 \<Longrightarrow> right s = 1 \<or> right s = - 1"
    and "\<not> int c < cs - 1 \<Longrightarrow> right s = 0"
    and "int r < rs - 1 \<Longrightarrow> bottom s = 1 \<or> bottom s = - 1"
    and "\<not> int r < rs - 1 \<Longrightarrow> bottom s = 0"
proof -
  from assms obtain s where "read_cell g r c = Some s"
    and "if 0 < r then \<exists>u. read_cell g (r - 1) c = Some u \<and> top_edge s = - bottom u
           else top_edge s = 0"
    and "if 0 < c then \<exists>p. read_cell g r (c - 1) = Some p \<and> left s = - right p
           else left s = 0"
    and "if int c < cs - 1 then right s = 1 \<or> right s = - 1 else right s = 0"
    and "if int r < rs - 1 then bottom s = 1 \<or> bottom s = - 1 else bottom s = 0"
    unfolding cell_ok_def by blast
  then show thesis
    by (intro that[of s]) (simp_all split: if_splits)
qed

lemma cell_ok_left:
  "cell_ok rs cs g r (Suc c) \<Longrightarrow>
   \<exists>s p. read_cell g r (Suc c) = Some s \<and> read_cell g r c = Some p \<and> left s = - right p"
  by (auto simp: cell_ok_def)

lemma cell_ok_top:
  "cell_ok rs cs g (Suc r) c \<Longrightarrow>
   \<exists>s u. read_cell g (Suc r) c = Some s \<and> read_cell g r c = Some u \<and> top_edge s = - bottom u"
  by (auto simp: cell_ok_def)

text \<open>
  Claim C1. For every \<open>rows \<ge> 1\<close>, \<open>cols \<ge> 1\<close> and every stream of random values the
  shape loop finishes without throwing, and in the grid it leaves: the top edges of row
  \<open>0\<close>, the bottom edges of the last row, the left edges of column \<open>0\<close> and the right
  edges of the last column are \<open>0\<close>; for every cell with a right neighbour
  \<open>right = - left\<close> of the neighbour, for every cell with a neighbour below
  \<open>bottom = - top\<close> of that neighbour; and every interior edge, on either side, is
  \<open>1\<close> or \<open>- 1\<close>.
\<close>

theorem shape_grid_mates:
  assumes "1 \<le> rs" "1 \<le> cs"
  shows "\<exists>a sh. generate_shapes rand rs cs = Some a
     \<and> (\<forall>r < nat rs. \<forall>c < nat cs.
          read_cell (shapes a) r c = Some (sh r c)
        \<and> (r = 0 \<longrightarrow> top_edge (sh r c) = 0)
        \<and> (r + 1 = nat rs \<longrightarrow> bottom (sh r c) = 0)
        \<and> (c = 0 \<longrightarrow> left (sh r c) = 0)
        \<and> (c + 1 = nat cs \<longrightarrow> right (sh r c) = 0)
        \<and> (c + 1 < nat cs \<longrightarrow> right (sh r c) = - left (sh r (c + 1))
                                \<and> (right (sh r c) = 1 \<or> right (sh r c) = - 1))
        \<and> (r + 1 < nat rs \<longrightarrow> bottom (sh r c) = - top_edge (sh (r + 1) c)
                                \<and> (bottom (sh r c) = 1 \<or> bottom (sh r c) = - 1))
        \<and> (0 < c \<longrightarrow> left (sh r c) = 1 \<or> left (sh r c) = - 1)
        \<and> (0 < r \<longrightarrow> top_edge (sh r c) = 1 \<or> top_edge (sh r c) = - 1))"
proof -
  from generate_shapes_assigned[of rs cs rand] assms
  obtain a where a: "generate_shapes rand rs cs = Some a"
    and inv: "assigned rs cs (nat rs) 0 (shapes a)" by auto
  define sh where "sh r c = the (read_cell (shapes a) r c)" for r c
  have ok: "cell_ok rs cs (shapes a) r c" if "r < nat rs" "c < nat cs" for r c
    using inv that by (auto simp: assigned_def earlier_def)
  have cellf: "read_cell (shapes a) r c = Some (sh r c)
        \<and> (r = 0 \<longrightarrow> top_edge (sh r c) = 0)
        \<and> (r + 1 = nat rs \<longrightarrow> bottom (sh r c) = 0)
        \<and> (c = 0 \<longrightarrow> left (sh r c) = 0)
        \<and> (c + 1 = nat cs \<longrightarrow> right (sh r c) = 0)
        \<and> (c + 1 < nat cs \<longrightarrow> right (sh r c) = - left (sh r (c + 1))
                                \<and> (right (sh r c) = 1 \<or> right (sh r c) = - 1))
        \<and> (r + 1 < nat rs \<longrightarrow> bottom (sh r c) = - top_edge (sh (r + 1) c)
                                \<and> (bottom (sh r c) = 1 \<or> bottom (sh r c) = - 1))"
    if r: "r < nat rs" and c: "c < nat cs" for r c
  proof -
    from ok[OF r c] obtain s where s: "read_cell (shapes a) r c = Some s"
      and s_top: "r = 0 \<Longrightarrow> top_edge s = 0"
      and "0 < r \<Longrightarrow> \<exists>u. read_cell (shapes a) (r - 1) c = Some u \<and> top_edge s = - bottom u"
      and s_left: "c = 0 \<Longrightarrow> left s = 0"
      and "0 < c \<Longrightarrow> \<exists>p. read_cell (shapes a) r (c - 1) = Some p \<and> left s = - right p"
      and s_right: "int c < cs - 1 \<Longrightarrow> right s = 1 \<or> right s = - 1"
      and s_right0: "\<not> int c < cs - 1 \<Longrightarrow> right s = 0"
      and s_bottom: "int r < rs - 1 \<Longrightarrow> bottom s = 1 \<or> bottom s = - 1"
      and s_bottom0: "\<not> int r < rs - 1 \<Longrightarrow> bottom s = 0"
      by (rule cell_okE) blast
    have shs: "sh r c = s" using s by (simp add: sh_def)
    have rgt: "right s = - left (sh r (c + 1))" if "c + 1 < nat cs"
    proof -
      have "cell_ok rs cs (shapes a) r (Suc c)" using ok[OF r] that by simp
      from cell_ok_left[OF this] obtain s' p
        where "read_cell (shapes a) r (Suc c) = Some s'" "read_cell (shapes a) r c = Some p"
          "left s' = - right p" by blast
      then show ?thesis using s by (simp add: sh_def)
    qed
    have dwn: "bottom s = - top_edge (sh (r + 1) c)" if "r + 1 < nat rs"
    proof -
      have "cell_ok rs cs (shapes a) (Suc r) c" using ok[OF _ c] that by simp
      from cell_ok_top[OF this] obtain s' u
        where "read_cell (shapes a) (Suc r) c = Some s'" "read_cell (shapes a) r c = Some u"
          "top_edge s' = - bottom u" by blast
      then show ?thesis using s by (simp add: sh_def)
    qed
    have c1: "c + 1 = nat cs \<Longrightarrow> \<not> int c < cs - 1" by linarith
    have c2: "c + 1 < nat cs \<Longrightarrow> int c < cs - 1" by linarith
    have r1: "r + 1 = nat rs \<Longrightarrow> \<not> int r < rs - 1" by linarith
    have r2: "r + 1 < nat rs \<Longrightarrow> int r < rs - 1" by linarith
    show ?thesis
      unfolding shs
      using s s_top s_left s_right s_right0 s_bottom s_bottom0 rgt dwn c1 c2 r1 r2
      by blast
  qed
  have lft: "left (sh r c) = 1 \<or> left (sh r c) = - 1"
    if r: "r < nat rs" and c: "c < nat cs" and pos: "0 < c" for r c
  proof -
    obtain c' where c': "c = Suc c'" using pos by (cases c) simp_all
    then have "c' < nat cs" "c' + 1 < nat cs" using c by simp_all
    with cellf[OF r, of c']
    have "right (sh r c') = - left (sh r (c' + 1))"
      "right (sh r c') = 1 \<or> right (sh r c') = - 1" by auto
    then show ?thesis unfolding c' by auto
  qed
  have tp: "top_edge (sh r c) = 1 \<or> top_edge (sh r c) = - 1"
    if r: "r < nat rs" and c: "c < nat cs" and pos: "0 < r" for r c
  proof -
    obtain r' where r': "r = Suc r'" using pos by (cases r) simp_all
    then have "r' < nat rs" "r' + 1 < nat rs" using r by simp_all
    with cellf[OF _ c, of r']
    have "bottom (sh r' c) = - top_edge (sh (r' + 1) c)"
      "bottom (sh r' c) = 1 \<or> bottom (sh r' c) = - 1" by auto
    then show ?thesis unfolding r' by auto
  qed
  have "read_cell (shapes a) r c = Some (sh r c)
        \<and> (r = 0 \<longrightarrow> top_edge (sh r c) = 0)
        \<and> (r + 1 = nat rs \<longrightarrow> bottom (sh r c) = 0)
        \<and> (c = 0 \<longrightarrow> left (sh r c) = 0)
        \<and> (c + 1 = nat cs \<longrightarrow> right (sh r c) = 0)
        \<and> (c + 1 < nat cs \<longrightarrow> right (sh r c) = - left (sh r (c + 1))
                                \<and> (right (sh r c) = 1 \<or> right (sh r c) = - 1))
        \<and> (r + 1 < nat rs \<longrightarrow> bottom (sh r c) = - top_edge (sh (r + 1) c)
                                \<and> (bottom (sh r c) = 1 \<or> bottom (sh r c) = - 1))
        \<and> (0 < c \<longrightarrow> left (sh r c) = 1 \<or> left (sh r c) = - 1)
        \<and> (0 < r \<longrightarrow> top_edge (sh r c) = 1 \<or> top_edge (sh r c) = - 1)"
    if "r < nat rs" "c < nat cs" for r c
    using cellf[OF that] lft[OF that] tp[OF that] by blast
  then show ?thesis using a by blast
qed

theorem shape_grid_mates_witness:
  "\<exists>a s00 s01 s10 s11.
      generate_shapes (\<lambda>_. 3 / 4) 2 2 = Some a
    \<and> read_cell (shapes a) 0 0 = Some s00 \<and> read_cell (shapes a) 0 1 = Some s01
    \<and> read_cell (shapes a) 1 0 = Some s10 \<and> read_cell (shapes a) 1 1 = Some s11
    \<and> top_edge s00 = 0 \<and> left s00 = 0 \<and> top_edge s01 = 0 \<and> right s01 = 0
    \<and> left s10 = 0 \<and> bottom s10 = 0 \<and> right s11 = 0 \<and> bottom s11 = 0
    \<and> right s00 = - left s01 \<and> right s10 = - left s11
    \<and> bottom s00 = - top_edge s10 \<and> bottom s01 = - top_edge s11
    \<and> (right s00 = 1 \<or> right s00 = - 1) \<and> (bottom s01 = 1 \<or> bottom s01 = - 1)"
proof -
  from shape_grid_mates[of 2 2 "\<lambda>_. 3 / 4"]
  obtain a sh where a: "generate_shapes (\<lambda>_. 3 / 4) 2 2 = Some a"
    and all: "\<forall>r < nat 2. \<forall>c < nat 2.
          read_cell (shapes a) r c = Some (sh r c)
        \<and> (r = 0 \<longrightarrow> top_edge (sh r c) = 0)
        \<and> (r + 1 = nat 2 \<longrightarrow> bottom (sh r c) = 0)
        \<and> (c = 0 \<longrightarrow> left (sh r c) = 0)
        \<and> (c + 1 = nat 2 \<longrightarrow> right (sh r c) = 0)
        \<and> (c + 1 < nat 2 \<longrightarrow> right (sh r c) = - left (sh r (c + 1))
                                \<and> (right (sh r c) = 1 \<or> right (sh r c) = - 1))
        \<and> (r + 1 < nat 2 \<longrightarrow> bottom (sh r c) = - top_edge (sh (r + 1) c)
                                \<and> (bottom (sh r c) = 1 \<or> bottom (sh r c) = - 1))
        \<and> (0 < c \<longrightarrow> left (sh r c) = 1 \<or> left (sh r c) = - 1)
        \<and> (0 < r \<longrightarrow> top_edge (sh r c) = 1 \<or> top_edge (sh r c) = - 1)"
    by auto
  have in2: "(0::nat) < nat 2" "(1::nat) < nat 2" by simp_all
  note c00 = all[rule_format, OF in2(1) in2(1)]
    and c01 = all[rule_format, OF in2(1) in2(2)]
    and c10 = all[rule_format, OF in2(2) in2(1)]
    and c11 = all[rule_format, OF in2(2) in2(2)]
  have "read_cell (shapes a) 0 0 = Some (sh 0 0) \<and> read_cell (shapes a) 0 1 = Some (sh 0 1)
    \<and> read_cell (shapes a) 1 0 = Some (sh 1 0) \<and> read_cell (shapes a) 1 1 = Some (sh 1 1)
    \<and> top_edge (sh 0 0) = 0 \<and> left (sh 0 0) = 0 \<and> top_edge (sh 0 1) = 0 \<and> right (sh 0 1) = 0
    \<and> left (sh 1 0) = 0 \<and> bottom (sh 1 0) = 0 \<and> right (sh 1 1) = 0 \<and> bottom (sh 1 1) = 0
    \<and> right (sh 0 0) = - left (sh 0 1) \<and> right (sh 1 0) = - left (sh 1 1)
    \<and> bottom (sh 0 0) = - top_edge (sh 1 0) \<and> bottom (sh 0 1) = - top_edge (sh 1 1)
    \<and> (right (sh 0 0) = 1 \<or> right (sh 0 0) = - 1) \<and> (bottom (sh 0 1) = 1 \<or> bottom (sh 0 1) = - 1)"
    using c00 c01 c10 c11 by auto
  then show ?thesis
    using a by blast
qed

section \<open>Properties of the Piece Rasterizer\<close>

lemma cells_upto_Suc: "cells_upto C r (Suc c) = cells_upto C r c @ [(r, c)]"
  by (simp add: cells_upto_def)

lemma cells_upto_row: "cells_upto C r C = cells_upto C (Suc r) 0"
  by (simp add: cells_upto_def)

lemma cells_upto_0: "cells_upto C 0 0 = []"
  by (simp add: cells_upto_def)

lemma set_cells_upto: "set (cells_upto C R 0) = {(r, c). r < R \<and> c < C}"
  by (auto simp add: cells_upto_def)

lemma length_cells_upto: "length (cells_upto C R 0) = R * C"
  by (induction R) (simp_all add: cells_upto_def)

lemma pushed_append:
  "pushed tdu ctx w h L g (xs @ ys) = pushed tdu ctx w h L g xs @ pushed tdu ctx w h L g ys"
  by (simp add: pushed_def)

lemma pushed_Nil: "pushed tdu ctx w h L g [] = []"
  by (simp add: pushed_def)

lemma pushed_single: "pushed tdu ctx w h L g [rc] = pushed_at tdu ctx w h L g rc"
  by (simp add: pushed_def)

lemma length_pushed_at: "length (pushed_at tdu ctx w h L g rc) \<le> 1"
  by (simp add: pushed_at_def split: option.splits)

lemma length_pushed_le: "length (pushed tdu ctx w h L g cells) \<le> length cells"
proof (induction cells)
  case Nil
  show ?case by (simp add: pushed_def)
next
  case (Cons rc cells)
  have "pushed tdu ctx w h L g (rc # cells)
          = pushed_at tdu ctx w h L g rc @ pushed tdu ctx w h L g cells"
    by (simp add: pushed_def)
  then show ?case using Cons length_pushed_at[of tdu ctx w h L g rc] by simp
qed

lemma length_pushed_full:
  assumes "length (pushed tdu ctx w h L g cells) = length cells" and "rc \<in> set cells"
  shows "length (pushed_at tdu ctx w h L g rc) = 1"
  using assms
proof (induction cells)
  case Nil
  then show ?case by simp
next
  case (Cons x cells)
  have split: "pushed tdu ctx w h L g (x # cells)
          = pushed_at tdu ctx w h L g x @ pushed tdu ctx w h L g cells"
    by (simp add: pushed_def)
  have a: "length (pushed_at tdu ctx w h L g x) \<le> 1" by (rule length_pushed_at)
  have b: "length (pushed tdu ctx w h L g cells) \<le> length cells" by (rule length_pushed_le)
  from Cons.prems(1) split a b
  have x1: "length (pushed_at tdu ctx w h L g x) = 1"
    and rest: "length (pushed tdu ctx w h L g cells) = length cells" by simp_all
  show ?case
  proof (cases "rc = x")
    case True
    then show ?thesis using x1 by simp
  next
    case False
    then have "rc \<in> set cells" using Cons.prems(2) by simp
    then show ?thesis using Cons.IH rest by simp
  qed
qed

lemma raster_cell_step:
  assumes inv: "raster_inv tdu ctx w h L g r c st"
    and r: "r < length g" and some: "ctx r c \<Longrightarrow> \<exists>sh. read_cell g r c = Some sh"
    and c: "c < nat (cols L)"
  shows "\<exists>st'. raster_cell tdu ctx w h L g r c st = Some st'
            \<and> raster_inv tdu ctx w h L g r (Suc c) st'"
proof (cases "ctx r c")
  case False
  then have "raster_cell tdu ctx w h L g r c st = Some st"
    using r by (simp add: raster_cell_def)
  moreover have "raster_inv tdu ctx w h L g r (Suc c) st"
    using inv False
    by (auto simp add: raster_inv_def cells_upto_Suc pushed_append pushed_single pushed_at_def)
  ultimately show ?thesis by simp
next
  case True
  then obtain sh where sh: "read_cell g r c = Some sh" using some by blast
  let ?st1 = "st\<lparr> pieces_acc := pieces_acc st @ [make_piece tdu w h L r c sh],
                    loadedCount := loadedCount st + 1 \<rparr>"
  let ?st' = "if int (loadedCount ?st1) = rows L * cols L
              then ?st1\<lparr> resolve_called := True \<rparr> else ?st1"
  have res: "raster_cell tdu ctx w h L g r c st = Some ?st'"
    using r True sh by (simp add: raster_cell_def Let_def)
  have "raster_inv tdu ctx w h L g r (Suc c) ?st'"
    using inv True sh
    by (auto simp add: raster_inv_def cells_upto_Suc pushed_append pushed_single pushed_at_def)
  then show ?thesis using res by blast
qed

lemma raster_row:
  assumes inv: "raster_inv tdu ctx w h L g r 0 st" and r: "r < length g"
    and some: "\<And>c. c < nat (cols L) \<Longrightarrow> \<exists>sh. read_cell g r c = Some sh"
  shows "\<exists>st'. for_each [0..<nat (cols L)] (raster_cell tdu ctx w h L g r) st = Some st'
            \<and> raster_inv tdu ctx w h L g (Suc r) 0 st'"
proof -
  have "\<exists>st'. for_each [0..<nat (cols L)] (raster_cell tdu ctx w h L g r) st = Some st'
            \<and> raster_inv tdu ctx w h L g r (nat (cols L)) st'"
  proof (rule for_each_upt[where I = "\<lambda>c st. raster_inv tdu ctx w h L g r c st"])
    show "raster_inv tdu ctx w h L g r 0 st" by (rule inv)
    show "\<exists>s'. raster_cell tdu ctx w h L g r i s = Some s' \<and> raster_inv tdu ctx w h L g r (Suc i) s'"
      if "i < nat (cols L)" "raster_inv tdu ctx w h L g r i s" for i s
      using raster_cell_step[OF that(2) r _ that(1)] some[OF that(1)] by blast
    show "0 \<le> nat (cols L)" by simp
  qed
  then show ?thesis by (simp add: raster_inv_def cells_upto_row)
qed

lemma rasterize_total:
  assumes len: "length g = nat (rows L)"
    and some: "\<And>r c. r < nat (rows L) \<Longrightarrow> c < nat (cols L) \<Longrightarrow> \<exists>sh. read_cell g r c = Some sh"
  shows "\<exists>st. rasterize tdu ctx w h L g = Some st
            \<and> raster_inv tdu ctx w h L g (nat (rows L)) 0 st"
  unfolding rasterize_def
proof (rule for_each_upt[where I = "\<lambda>r st. raster_inv tdu ctx w h L g r 0 st"])
  show "raster_inv tdu ctx w h L g 0 0 \<lparr> pieces_acc = [], loadedCount = 0, resolve_called = False \<rparr>"
    by (auto simp add: raster_inv_def cells_upto_0 pushed_Nil zero_less_mult_iff)
  show "\<exists>s'. for_each [0..<nat (cols L)] (raster_cell tdu ctx w h L g i) s = Some s'
           \<and> raster_inv tdu ctx w h L g (Suc i) 0 s'"
    if "i < nat (rows L)" "raster_inv tdu ctx w h L g i 0 s" for i s
    using raster_row[OF that(2)] that(1) len some by simp
  show "0 \<le> nat (rows L)" by simp
qed

lemma assigned_read:
  assumes "assigned rs cs (nat rs) 0 g" "r < nat rs" "c < nat cs"
  shows "\<exists>sh. read_cell g r c = Some sh"
proof -
  have "cell_ok rs cs g r c" using assms by (auto simp: assigned_def earlier_def)
  then show ?thesis by (auto simp: cell_ok_def)
qed

lemma onload_total:
  assumes "0 \<le> rows (layout t w h gs mw mh)" "0 \<le> cols (layout t w h gs mw mh)"
  shows "\<exists>a st. generate_shapes rand (rows (layout t w h gs mw mh)) (cols (layout t w h gs mw mh)) = Some a
      \<and> onload t tdu rand ctx w h gs mw mh = Some (layout t w h gs mw mh, shapes a, st)
      \<and> raster_inv tdu ctx w h (layout t w h gs mw mh) (shapes a)
            (nat (rows (layout t w h gs mw mh))) 0 st"
proof -
  let ?L = "layout t w h gs mw mh"
  from generate_shapes_assigned[OF assms, of rand]
  obtain a where a: "generate_shapes rand (rows ?L) (cols ?L) = Some a"
    and inv: "assigned (rows ?L) (cols ?L) (nat (rows ?L)) 0 (shapes a)" by blast
  have len: "length (shapes a) = nat (rows ?L)" using inv by (simp add: assigned_def)
  from rasterize_total[of "shapes a" ?L tdu ctx w h, OF len assigned_read[OF inv]]
  obtain st where st: "rasterize tdu ctx w h ?L (shapes a) = Some st"
    and rinv: "raster_inv tdu ctx w h ?L (shapes a) (nat (rows ?L)) 0 st" by blast
  show ?thesis using a st rinv by (simp add: onload_def Let_def)
qed

lemma pushed_Cons:
  "pushed tdu ctx w h L g (x # cells) = pushed_at tdu ctx w h L g x @ pushed tdu ctx w h L g cells"
  by (simp add: pushed_def)

lemma pushed_map_full:
  assumes "length (pushed tdu ctx w h L g cells) = length cells"
    and f: "\<And>r c sh. f (make_piece tdu w h L r c sh) = k (r, c)"
  shows "map f (pushed tdu ctx w h L g cells) = map k cells"
  using assms(1)
proof (induction cells)
  case Nil
  then show ?case by (simp add: pushed_Nil)
next
  case (Cons x cells)
  have a: "length (pushed_at tdu ctx w h L g x) \<le> 1" by (rule length_pushed_at)
  have b: "length (pushed tdu ctx w h L g cells) \<le> length cells" by (rule length_pushed_le)
  from Cons.prems a b
  have x1: "length (pushed_at tdu ctx w h L g x) = 1"
    and rest: "length (pushed tdu ctx w h L g cells) = length cells"
    by (simp_all add: pushed_Cons)
  from x1 obtain sh where "pushed_at tdu ctx w h L g x = [make_piece tdu w h L (fst x) (snd x) sh]"
    by (auto simp add: pushed_at_def split: if_splits option.splits)
  then have "map f (pushed_at tdu ctx w h L g x) = [k x]" using f by simp
  then show ?case using Cons.IH[OF rest] by (simp add: pushed_Cons)
qed

lemma cell_ids: "map (\<lambda>rc. fst rc * C + snd rc) (cells_upto C R 0) = [0..<R * C]"
proof (induction R)
  case 0
  show ?case by (simp add: cells_upto_def)
next
  case (Suc R)
  have "cells_upto C (Suc R) 0 = cells_upto C R 0 @ map (Pair R) [0..<C]"
    by (simp add: cells_upto_def)
  moreover have "map (\<lambda>rc. fst rc * C + snd rc) (map (Pair R) [0..<C]) = [R * C..<R * C + C]"
    using map_add_upt[of "R * C" C] by (simp add: o_def add.commute)
  moreover have "[0..<R * C + C] = [0..<R * C] @ [R * C..<R * C + C]"
    by (rule upt_add_eq_append) simp
  then have "[0..<R * C] @ [R * C..<R * C + C] = [0..<Suc R * C]"
    by (simp add: add.commute)
  ultimately show ?case using Suc by simp
qed

lemma onload_SomeD:
  assumes "onload t tdu rand ctx w h gs mw mh = Some (L, g, st)"
  shows "L = layout t w h gs mw mh
       \<and> (\<exists>a. generate_shapes rand (rows L) (cols L) = Some a \<and> g = shapes a)
       \<and> rasterize tdu ctx w h L g = Some st"
  using assms by (auto simp add: onload_def Let_def split: option.splits)

lemma onload_inv:
  assumes on: "onload t tdu rand ctx w h gs mw mh = Some (L, g, st)"
  shows "raster_inv tdu ctx w h L g (nat (rows L)) 0 st
       \<and> (\<forall>r c. r < nat (rows L) \<and> c < nat (cols L) \<longrightarrow> (\<exists>sh. read_cell g r c = Some sh))"
proof -
  from onload_SomeD[OF on] obtain a where L: "L = layout t w h gs mw mh"
    and a: "generate_shapes rand (rows L) (cols L) = Some a" and g: "g = shapes a"
    and ras: "rasterize tdu ctx w h L g = Some st" by blast
  have r0: "0 \<le> rows L"
    using a by (auto simp add: generate_shapes_def init_shapes_def split: if_splits)
  show ?thesis
  proof (cases "0 \<le> cols L")
    case True
    from onload_total[of t w h gs mw mh rand tdu ctx] r0 True L
    obtain a' st' where "generate_shapes rand (rows L) (cols L) = Some a'"
      and "onload t tdu rand ctx w h gs mw mh = Some (L, shapes a', st')"
      and "raster_inv tdu ctx w h L (shapes a') (nat (rows L)) 0 st'" by auto
    moreover from generate_shapes_assigned[OF r0 True, of rand] a
    have "assigned (rows L) (cols L) (nat (rows L)) 0 (shapes a)" by simp
    ultimately show ?thesis using on a g assigned_read by auto
  next
    case False
    then have "rows L = 0"
      using a r0 by (auto simp add: generate_shapes_def init_shapes_def split: if_splits)
    then have "st = \<lparr> pieces_acc = [], loadedCount = 0, resolve_called = False \<rparr>"
      using ras by (simp add: rasterize_def)
    then show ?thesis using \<open>rows L = 0\<close>
      by (simp add: raster_inv_def cells_upto_0 pushed_Nil)
  qed
qed

lemma pushed_at_mem:
  assumes "p \<in> set (pushed_at tdu ctx w h L g (r, c))"
  shows "ctx r c \<and> (\<exists>sh. read_cell g r c = Some sh \<and> p = make_piece tdu w h L r c sh)"
  using assms
  by (cases "ctx r c"; cases "read_cell g r c") (simp_all add: pushed_at_def)

lemma pushed_mem:
  assumes "p \<in> set (pushed tdu ctx w h L g cells)"
  shows "\<exists>r c sh. (r, c) \<in> set cells \<and> ctx r c \<and> read_cell g r c = Some sh
            \<and> p = make_piece tdu w h L r c sh"
proof -
  from assms obtain r c where rc: "(r, c) \<in> set cells"
    and p: "p \<in> set (pushed_at tdu ctx w h L g (r, c))"
    by (auto simp add: pushed_def)
  from pushed_at_mem[OF p] rc show ?thesis by blast
qed

lemma onload_dims:
  assumes on: "onload t tdu rand ctx w h gs mw mh = Some (L, g, st)" and rc: "resolve_called st"
  shows "0 \<le> rows L \<and> 0 \<le> cols L"
proof -
  from onload_SomeD[OF on] obtain a where
    a: "generate_shapes rand (rows L) (cols L) = Some a"
    and ras: "rasterize tdu ctx w h L g = Some st" by blast
  have r0: "0 \<le> rows L"
    using a by (auto simp add: generate_shapes_def init_shapes_def split: if_splits)
  have "0 \<le> cols L"
  proof (rule ccontr)
    assume "\<not> 0 \<le> cols L"
    then have "rows L = 0"
      using a r0 by (auto simp add: generate_shapes_def init_shapes_def split: if_splits)
    then have "st = \<lparr> pieces_acc = [], loadedCount = 0, resolve_called = False \<rparr>"
      using ras by (simp add: rasterize_def)
    then show False using rc by simp
  qed
  then show ?thesis using r0 by simp
qed

lemma resolved_pieces:
  assumes res: "generatePuzzle t tdu rand ctx (Loaded w h) gs mw mh = Resolved ps pw ph"
  shows "\<exists>g. ps = pushed tdu ctx w h (layout t w h gs mw mh) g
                 (cells_upto (nat (cols (layout t w h gs mw mh))) (nat (rows (layout t w h gs mw mh))) 0)
       \<and> length ps = nat (rows (layout t w h gs mw mh)) * nat (cols (layout t w h gs mw mh))
       \<and> int (length ps) = rows (layout t w h gs mw mh) * cols (layout t w h gs mw mh)
       \<and> pw = puzzleWidth (layout t w h gs mw mh) \<and> ph = puzzleHeight (layout t w h gs mw mh)"
proof -
  let ?L = "layout t w h gs mw mh"
  from res obtain L g st where on: "onload t tdu rand ctx w h gs mw mh = Some (L, g, st)"
    and rc: "resolve_called st" and ps: "ps = pieces_acc st"
    and sz: "pw = puzzleWidth L" "ph = puzzleHeight L"
    by (auto simp add: generatePuzzle_def split: option.splits if_splits)
  have L: "L = ?L" using onload_SomeD[OF on] by simp
  from onload_inv[OF on] have inv: "raster_inv tdu ctx w h L g (nat (rows L)) 0 st" by simp
  let ?cells = "cells_upto (nat (cols L)) (nat (rows L)) 0"
  have eq: "ps = pushed tdu ctx w h L g ?cells" and cnt: "loadedCount st = length ps"
    and ge: "rows L * cols L \<le> int (length ps)"
    using inv rc ps by (auto simp add: raster_inv_def)
  have le: "length ps \<le> nat (rows L) * nat (cols L)"
    using length_pushed_le[of tdu ctx w h L g ?cells] eq by (simp add: length_cells_upto)
  from onload_dims[OF on rc] have nn: "0 \<le> rows L" "0 \<le> cols L" by simp_all
  have prod: "int (nat (rows L) * nat (cols L)) = rows L * cols L"
    using nn by simp
  have len: "length ps = nat (rows L) * nat (cols L)"
    using le ge prod by linarith
  show ?thesis using eq len prod sz unfolding L[symmetric] by auto
qed

lemma resolved_ids:
  assumes res: "generatePuzzle t tdu rand ctx (Loaded w h) gs mw mh = Resolved ps pw ph"
  shows "map piece_id ps = [0..<length ps]"
proof -
  let ?L = "layout t w h gs mw mh"
  let ?cells = "cells_upto (nat (cols ?L)) (nat (rows ?L)) 0"
  from resolved_pieces[OF res] obtain g where eq: "ps = pushed tdu ctx w h ?L g ?cells"
    and len: "length ps = nat (rows ?L) * nat (cols ?L)" by blast
  have full: "length (pushed tdu ctx w h ?L g ?cells) = length ?cells"
    using eq len by (simp add: length_cells_upto)
  have "map piece_id (pushed tdu ctx w h ?L g ?cells)
          = map (\<lambda>rc. fst rc * nat (cols ?L) + snd rc) ?cells"
    by (rule pushed_map_full[OF full]) (simp add: make_piece_def Let_def)
  then show ?thesis using eq len by (simp add: cell_ids)
qed

lemma pushed_all:
  assumes "\<And>r c. (r, c) \<in> set cells \<Longrightarrow> ctx r c \<and> (\<exists>sh. read_cell g r c = Some sh)"
  shows "length (pushed tdu ctx w h L g cells) = length cells"
  using assms
proof (induction cells)
  case Nil
  show ?case by (simp add: pushed_Nil)
next
  case (Cons x cells)
  obtain r c where x: "x = (r, c)" by (cases x)
  have "ctx r c \<and> (\<exists>sh. read_cell g r c = Some sh)" using Cons.prems[of r c] x by simp
  then have "length (pushed_at tdu ctx w h L g x) = 1"
    using x by (auto simp add: pushed_at_def)
  moreover have "length (pushed tdu ctx w h L g cells) = length cells"
    using Cons.IH Cons.prems by simp
  ultimately show ?case by (simp add: pushed_Cons)
qed

lemma generatePuzzle_resolves:
  assumes rows: "1 \<le> rows (layout t w h gs mw mh)" and cols: "1 \<le> cols (layout t w h gs mw mh)"
    and ctx: "\<And>r c. r < nat (rows (layout t w h gs mw mh)) \<Longrightarrow> c < nat (cols (layout t w h gs mw mh))
                \<Longrightarrow> ctx r c"
  shows "\<exists>ps. generatePuzzle t tdu rand ctx (Loaded w h) gs mw mh
            = Resolved ps (puzzleWidth (layout t w h gs mw mh)) (puzzleHeight (layout t w h gs mw mh))"
proof -
  let ?L = "layout t w h gs mw mh"
  let ?cells = "cells_upto (nat (cols ?L)) (nat (rows ?L)) 0"
  have nn: "0 \<le> rows ?L" "0 \<le> cols ?L" using rows cols by simp_all
  from onload_total[OF nn, of rand tdu ctx]
  obtain a st where "generate_shapes rand (rows ?L) (cols ?L) = Some a"
    and on: "onload t tdu rand ctx w h gs mw mh = Some (?L, shapes a, st)"
    and inv: "raster_inv tdu ctx w h ?L (shapes a) (nat (rows ?L)) 0 st" by (elim exE conjE)
  from onload_inv[OF on]
  have some: "\<And>r c. r < nat (rows ?L) \<Longrightarrow> c < nat (cols ?L) \<Longrightarrow> \<exists>sh. read_cell (shapes a) r c = Some sh"
    by blast
  have "length (pushed tdu ctx w h ?L (shapes a) ?cells) = length ?cells"
    by (rule pushed_all) (use ctx some in \<open>auto simp add: set_cells_upto\<close>)
  then have "int (loadedCount st) = rows ?L * cols ?L"
    using inv rows cols by (simp add: raster_inv_def length_cells_upto)
  then have "resolve_called st" using inv rows cols by (auto simp add: raster_inv_def)
  then show ?thesis using on by (simp add: generatePuzzle_def)
qed

lemma ctx_failure_pending:
  assumes r: "r < nat (rows (layout t w h gs mw mh))" and c: "c < nat (cols (layout t w h gs mw mh))"
    and no: "\<not> ctx r c"
  shows "generatePuzzle t tdu rand ctx (Loaded w h) gs mw mh = Pending"
proof -
  let ?L = "layout t w h gs mw mh"
  let ?cells = "cells_upto (nat (cols ?L)) (nat (rows ?L)) 0"
  have "generatePuzzle t tdu rand ctx (Loaded w h) gs mw mh \<noteq> Resolved ps pw ph" for ps pw ph
  proof
    assume res: "generatePuzzle t tdu rand ctx (Loaded w h) gs mw mh = Resolved ps pw ph"
    from resolved_pieces[OF res] obtain g where eq: "ps = pushed tdu ctx w h ?L g ?cells"
      and len: "length ps = nat (rows ?L) * nat (cols ?L)" by blast
    have full: "length (pushed tdu ctx w h ?L g ?cells) = length ?cells"
      using eq len by (simp add: length_cells_upto)
    have "(r, c) \<in> set ?cells" using r c by (simp add: set_cells_upto)
    from length_pushed_full[OF full this] no show False by (simp add: pushed_at_def)
  qed
  moreover have "generatePuzzle t tdu rand ctx (Loaded w h) gs mw mh \<noteq> Rejected"
    by (simp add: generatePuzzle_def split: option.splits)
  ultimately show ?thesis by (cases "generatePuzzle t tdu rand ctx (Loaded w h) gs mw mh") auto
qed

text \<open>
  Claim C4. Whenever \<open>generatePuzzle\<close> resolves, the image had loaded and the number of
  pieces is \<open>rows * cols\<close> of the layout of that run; the ids are \<open>0, 1, \<dots>\<close> in order, and
  the pieces are those of the cells in row-major order, one for each cell.
\<close>

theorem resolved_piece_count:
  assumes "generatePuzzle t tdu rand ctx img gs mw mh = Resolved ps pw ph"
  shows "\<exists>w h. img = Loaded w h
       \<and> int (length ps) = rows (layout t w h gs mw mh) * cols (layout t w h gs mw mh)
       \<and> map piece_id ps = [0..<length ps]
       \<and> map (\<lambda>p. (row p, col p)) ps
            = concat (map (\<lambda>r. map (Pair r) [0..<nat (cols (layout t w h gs mw mh))])
                          [0..<nat (rows (layout t w h gs mw mh))])"
proof -
  from assms obtain w h where img: "img = Loaded w h"
    by (cases img) (simp_all add: generatePuzzle_def)
  let ?L = "layout t w h gs mw mh"
  let ?cells = "cells_upto (nat (cols ?L)) (nat (rows ?L)) 0"
  have res: "generatePuzzle t tdu rand ctx (Loaded w h) gs mw mh = Resolved ps pw ph"
    using assms img by simp
  from resolved_pieces[OF res] obtain g where eq: "ps = pushed tdu ctx w h ?L g ?cells"
    and len: "length ps = nat (rows ?L) * nat (cols ?L)"
    and cnt: "int (length ps) = rows ?L * cols ?L" by blast
  have full: "length (pushed tdu ctx w h ?L g ?cells) = length ?cells"
    using eq len by (simp add: length_cells_upto)
  have "map (\<lambda>p. (row p, col p)) (pushed tdu ctx w h ?L g ?cells) = map (\<lambda>rc. rc) ?cells"
    by (rule pushed_map_full[OF full]) (simp add: make_piece_def Let_def)
  then have "map (\<lambda>p. (row p, col p)) ps
      = concat (map (\<lambda>r. map (Pair r) [0..<nat (cols ?L)]) [0..<nat (rows ?L)])"
    using eq by (simp add: cells_upto_def)
  then show ?thesis using img cnt resolved_ids[OF res] by blast
qed

theorem resolved_piece_count_witness:
  "\<exists>ps. generatePuzzle (1 / 5) (\<lambda>_ _ _. []) (\<lambda>_. 3 / 4) (\<lambda>_ _. True) (Loaded 300 300) 3 300 300
          = Resolved ps 300 300
      \<and> length ps = 9 \<and> map piece_id ps = [0, 1, 2, 3, 4, 5, 6, 7, 8]"
proof -
  obtain ps where E: "generatePuzzle (1 / 5) (\<lambda>_ _ _. []) (\<lambda>_. 3 / 4) (\<lambda>_ _. True)
       (Loaded 300 300) 3 300 300 = Resolved ps 300 300"
    by (simp add: model_defs upt_rec)
  from resolved_piece_count[OF E]
  have "int (length ps) = rows (layout (1 / 5) 300 300 3 300 300) * cols (layout (1 / 5) 300 300 3 300 300)"
    and ids: "map piece_id ps = [0..<length ps]" by auto
  then have "length ps = 9" by (simp add: layout_def Let_def)
  then show ?thesis using E ids by (simp add: upt_rec)
qed



text \<open>
  Claim C3, at a run where it fails. Easy difficulty, a 300 by 300 image in a 300 by 300
  container, and \<open>getContext\<close> yielding no context for the cell \<open>(1, 1)\<close> only: the
  handler runs to its end and has pushed the other eight pieces, so the piece is skipped,
  but \<open>loadedCount\<close> is \<open>8\<close>, never equal to \<open>rows * cols = 9\<close>, \<open>resolve\<close> is not
  called and the promise stays pending.
\<close>

theorem missing_context_never_resolves:
  "generatePuzzle (1 / 5) (\<lambda>_ _ _. []) (\<lambda>_. 3 / 4) (\<lambda>r c. \<not> (r = 1 \<and> c = 1))
     (Loaded 300 300) 3 300 300 = Pending
   \<and> (\<exists>L g st. onload (1 / 5) (\<lambda>_ _ _. []) (\<lambda>_. 3 / 4) (\<lambda>r c. \<not> (r = 1 \<and> c = 1))
                  300 300 3 300 300 = Some (L, g, st)
        \<and> map piece_id (pieces_acc st) = [0, 1, 2, 3, 5, 6, 7, 8]
        \<and> loadedCount st = 8 \<and> rows L * cols L = 9 \<and> resolve_called st = False)"
  by (simp add: model_defs upt_rec)

text \<open>
  Claim C6. For a positive base grid and image dimensions in the range of \<open>in_range\<close>
  the rows and columns of the layout are those of the rule of the specification, computed
  in doubles as the program computes (\<open>spec_grid_in fl\<close> at the rounded aspect ratio);
  both are at least 1, so that \<open>pieceWidth = puzzleWidth / cols\<close> and
  \<open>pieceHeight = puzzleHeight / rows\<close>, rounded, have a divisor other than zero. For an
  800 by 400 image, grid size 5 and bounds 500 by 500 the puzzle is 500 by 250 with 5 rows
  and 10 columns, and when every cell gets a context the generation resolves with 50
  pieces.
\<close>

theorem grid_sizing_doubles:
  assumes "0 < gridSize" "gridSize \<le> 2 ^ 53" "in_range imgW" "in_range imgH"
  shows "(rows (layout_in fl t imgW imgH gridSize maxW maxH),
          cols (layout_in fl t imgW imgH gridSize maxW maxH))
           = spec_grid_in fl gridSize (fl (imgW / imgH))
       \<and> 1 \<le> rows (layout_in fl t imgW imgH gridSize maxW maxH)
       \<and> 1 \<le> cols (layout_in fl t imgW imgH gridSize maxW maxH)
       \<and> pieceWidth (layout_in fl t imgW imgH gridSize maxW maxH)
           = fl (puzzleWidth (layout_in fl t imgW imgH gridSize maxW maxH)
                 / of_int (cols (layout_in fl t imgW imgH gridSize maxW maxH)))
       \<and> pieceHeight (layout_in fl t imgW imgH gridSize maxW maxH)
           = fl (puzzleHeight (layout_in fl t imgW imgH gridSize maxW maxH)
                 / of_int (rows (layout_in fl t imgW imgH gridSize maxW maxH)))
       \<and> puzzleWidth (layout_in fl t 800 400 5 500 500) = 500
       \<and> puzzleHeight (layout_in fl t 800 400 5 500 500) = 250
       \<and> rows (layout_in fl t 800 400 5 500 500) = 5
       \<and> cols (layout_in fl t 800 400 5 500 500) = 10
       \<and> (\<exists>ps. generatePuzzle t tdu rand (\<lambda>r c. True) (Loaded 800 400) 5 500 500
                  = Resolved ps 500 250 \<and> length ps = 50)"
proof -
  have w: "0 < imgW" using assms(3) by (rule in_range_pos)
  have h: "0 < imgH" using assms(4) by (rule in_range_pos)
  have grid: "(rows (layout_in fl t imgW imgH gridSize maxW maxH),
          cols (layout_in fl t imgW imgH gridSize maxW maxH))
           = spec_grid_in fl gridSize (fl (imgW / imgH))"
    by (simp add: grid_layout_in spec_grid_in_def)
  have scen: "puzzleWidth (layout t 800 400 5 500 500) = 500"
    "puzzleHeight (layout t 800 400 5 500 500) = 250"
    "rows (layout t 800 400 5 500 500) = 5" "cols (layout t 800 400 5 500 500) = 10"
    by (simp_all add: layout_def Let_def)
  from generatePuzzle_resolves[of t 800 400 5 500 500 "\<lambda>r c. True" tdu rand] scen
  obtain ps where ps: "generatePuzzle t tdu rand (\<lambda>r c. True) (Loaded 800 400) 5 500 500
                  = Resolved ps 500 250" by auto
  from resolved_pieces[OF ps] scen have "length ps = 50" by auto
  with ps have ex: "\<exists>ps. generatePuzzle t tdu rand (\<lambda>r c. True) (Loaded 800 400) 5 500 500
                  = Resolved ps 500 250 \<and> length ps = 50" by blast
  show ?thesis
    using grid rows_cols_pos_fl[OF assms(1) w h, of t maxW maxH]
      piece_size_layout_in[of fl t imgW imgH gridSize maxW maxH]
      scenario_fl[of t] ex
    by blast
qed

theorem grid_sizing_doubles_witness:
  "in_range 100 \<and> in_range 130
   \<and> rows (layout_in fl (1 / 5) 100 130 5 300 390) = 6
   \<and> cols (layout_in fl (1 / 5) 100 130 5 300 390) = 5
   \<and> spec_grid_in fl 5 (fl (100 / 130)) = (6, 5)
   \<and> pieceWidth (layout_in fl (1 / 5) 100 130 5 300 390)
       = fl (puzzleWidth (layout_in fl (1 / 5) 100 130 5 300 390) / 5)"
proof -
  have r: "in_range 100" "in_range 130" by (simp_all add: in_range_def)
  have g: "rows (layout_in fl (1 / 5) 100 130 5 300 390) = 6"
    "cols (layout_in fl (1 / 5) 100 130 5 300 390) = 5"
    using grid_rounding_example[of "1 / 5" 300 390] by simp_all
  show ?thesis
    using grid_sizing_doubles[of 5 100 130 "1 / 5" 300 390] r g by simp
qed

section \<open>The cut between two neighbouring pieces\<close>

lemma sqrt2500: "sqrt 2500 = 50"
  by (rule real_sqrt_unique) simp_all

lemma layout_600_300: "layout (1/5) 600 300 3 300 150 =
   \<lparr> puzzleWidth = 300, puzzleHeight = 150, rows = 3, cols = 6,
     pieceWidth = 50, pieceHeight = 50, tabSize = 10 \<rparr>"
  by (simp add: layout_def Let_def)

lemma right_trace:
  "trace (60, 10) (right_path 10 10 50 50 \<lparr> top_edge = 0, right = 1, bottom = 1, left = 0 \<rparr> 10)
     = [Cubic (60, 10) (58, 25) (50, 33) (50, 35),
        Cubic (50, 35) (50, 35) (50, 37) (58, 45), Line (58, 45) (60, 60)]"
  by (simp add: right_path_def drawTab_def Let_def sqrt2500)

lemma left_trace:
  "trace (10, 60) (left_path 10 10 50 50 \<lparr> top_edge = 0, right = 1, bottom = 1, left = - 1 \<rparr> 10)
     = [Cubic (10, 60) (8, 45) (0, 37) (0, 35),
        Cubic (0, 35) (0, 35) (0, 33) (8, 25), Line (8, 25) (10, 10)]"
  by (simp add: left_path_def drawTab_def Let_def sqrt2500)

lemma off_first_curve: "\<not> on_segment (58, 25) (Cubic (60, 10) (58, 25) (50, 33) (50, 35))"
proof
  assume "on_segment (58, 25) (Cubic (60, 10) (58, 25) (50, 33) (50, 35))"
  then obtain t :: real where t: "0 \<le> t" "t \<le> 1"
    and x: "58 = cubic_at 60 58 50 50 t" and y: "25 = cubic_at 10 25 33 35 t"
    by auto
  have "15 * (cubic_at 60 58 50 50 t - 60) + 2 * (cubic_at 10 25 33 35 t - 10)
          = - (t * t * (312 - 212 * t))"
    by (simp add: cubic_at_def power2_eq_square power3_eq_cube algebra_simps)
  then have "t * t * (312 - 212 * t) = 0" using x y by simp
  moreover have "312 - 212 * t \<noteq> 0" using t by simp
  ultimately have "t = 0" by simp
  then show False using x by (simp add: cubic_at_def)
qed

lemma off_second_curve: "\<not> on_segment (58, 25) (Cubic (50, 35) (50, 35) (50, 37) (58, 45))"
proof
  assume "on_segment (58, 25) (Cubic (50, 35) (50, 35) (50, 37) (58, 45))"
  then obtain t :: real where t: "0 \<le> t" "t \<le> 1" and y: "25 = cubic_at 35 35 37 45 t"
    by auto
  have "cubic_at 35 35 37 45 t = 35 + (6 * ((1 - t) * (t * t)) + 10 * (t * t * t))"
    by (simp add: cubic_at_def power2_eq_square power3_eq_cube algebra_simps)
  moreover have "0 \<le> (1 - t) * (t * t)" using t by simp
  moreover have "0 \<le> t * t * t" using t by simp
  ultimately show False using y by simp
qed

lemma off_last_line: "\<not> on_segment (58, 25) (Line (58, 45) (60, 60))"
  by auto

lemma on_left_line: "on_segment (8, 25) (Line (8, 25) (10, 10))"
  by (simp add: exI[of _ 0])

lemma right_cut_example:
  "right_cut (layout (1/5) 600 300 3 300 150) 0 0 \<lparr> top_edge = 0, right = 1, bottom = 1, left = 0 \<rparr>
     = {(x + (- 10), y + (- 10)) | x y.
          on_path (x, y) [Cubic (60, 10) (58, 25) (50, 33) (50, 35),
                          Cubic (50, 35) (50, 35) (50, 37) (58, 45), Line (58, 45) (60, 60)]}"
  by (simp add: layout_600_300 right_cut_def cut_points_def origin_of_def right_trace)

lemma left_cut_example:
  "left_cut (layout (1/5) 600 300 3 300 150) 0 1 \<lparr> top_edge = 0, right = 1, bottom = 1, left = - 1 \<rparr>
     = {(x + 40, y + (- 10)) | x y.
          on_path (x, y) [Cubic (10, 60) (8, 45) (0, 37) (0, 35),
                          Cubic (0, 35) (0, 35) (0, 33) (8, 25), Line (8, 25) (10, 10)]}"
  by (simp add: layout_600_300 left_cut_def cut_points_def origin_of_def left_trace)

text \<open>
  Claim C2, at a run where it fails. Easy difficulty, a 600 by 300 image in a 300 by 150
  container, \<open>TAB_SIZE_RATIO = 0.2\<close>: the pieces are 50 by 50 with \<open>tabSize = 10\<close>. The
  pieces of the cells \<open>(0, 0)\<close> and \<open>(0, 1)\<close> share the edge from \<open>(50, 0)\<close> to
  \<open>(50, 50)\<close> of the board. When \<open>Math.random()\<close> yields \<open>0.75\<close> the shape loop gives
  them \<open>right = 1\<close> and \<open>left = - 1\<close> on that edge, and then the left edge of piece
  \<open>(0, 1)\<close> passes through the board point \<open>(48, 15)\<close>, where its closing straight
  segment starts, and the right edge of piece \<open>(0, 0)\<close> does not: \<open>drawTab\<close> starts
  with its first curve at the endpoint it is drawn from and ends with a straight segment
  into the other endpoint, and the two pieces draw the edge from opposite endpoints.
\<close>

theorem cut_edges_differ:
  "(\<exists>a. generate_shapes (\<lambda>_. 3 / 4) (rows (layout (1/5) 600 300 3 300 150))
            (cols (layout (1/5) 600 300 3 300 150)) = Some a
        \<and> read_cell (shapes a) 0 0 = Some \<lparr> top_edge = 0, right = 1, bottom = 1, left = 0 \<rparr>
        \<and> read_cell (shapes a) 0 1 = Some \<lparr> top_edge = 0, right = 1, bottom = 1, left = - 1 \<rparr>)
   \<and> (48, 15) \<in> left_cut (layout (1/5) 600 300 3 300 150) 0 1
                \<lparr> top_edge = 0, right = 1, bottom = 1, left = - 1 \<rparr>
   \<and> (48, 15) \<notin> right_cut (layout (1/5) 600 300 3 300 150) 0 0
                \<lparr> top_edge = 0, right = 1, bottom = 1, left = 0 \<rparr>"
proof (intro conjI)
  show "\<exists>a. generate_shapes (\<lambda>_. 3 / 4) (rows (layout (1/5) 600 300 3 300 150))
            (cols (layout (1/5) 600 300 3 300 150)) = Some a
        \<and> read_cell (shapes a) 0 0 = Some \<lparr> top_edge = 0, right = 1, bottom = 1, left = 0 \<rparr>
        \<and> read_cell (shapes a) 0 1 = Some \<lparr> top_edge = 0, right = 1, bottom = 1, left = - 1 \<rparr>"
    unfolding layout_600_300
    by (simp add: generate_shapes_def init_shapes_def assign_cell_def write_cell_def
          read_cell_def modify_cell_def coin_def upt_rec)
next
  have "on_path (8, 25) [Cubic (10, 60) (8, 45) (0, 37) (0, 35),
                          Cubic (0, 35) (0, 35) (0, 33) (8, 25), Line (8, 25) (10, 10)]"
    unfolding on_path_def using on_left_line by simp
  moreover have "(48::real, 15::real) = (8 + 40, 25 + (- 10))" by simp
  ultimately show "(48, 15) \<in> left_cut (layout (1/5) 600 300 3 300 150) 0 1
                \<lparr> top_edge = 0, right = 1, bottom = 1, left = - 1 \<rparr>"
    unfolding left_cut_example by blast
next
  show "(48, 15) \<notin> right_cut (layout (1/5) 600 300 3 300 150) 0 0
                \<lparr> top_edge = 0, right = 1, bottom = 1, left = 0 \<rparr>"
  proof
    assume "(48, 15) \<in> right_cut (layout (1/5) 600 300 3 300 150) 0 0
                \<lparr> top_edge = 0, right = 1, bottom = 1, left = 0 \<rparr>"
    then obtain x y :: real where eq: "(48::real, 15::real) = (x + (- 10), y + (- 10))"
      and on: "on_path (x, y) [Cubic (60, 10) (58, 25) (50, 33) (50, 35),
                          Cubic (50, 35) (50, 35) (50, 37) (58, 45), Line (58, 45) (60, 60)]"
      unfolding right_cut_example by blast
    from eq have "x = 58" "y = 25" by simp_all
    with on have "on_segment (58, 25) (Cubic (60, 10) (58, 25) (50, 33) (50, 35))
        \<or> on_segment (58, 25) (Cubic (50, 35) (50, 35) (50, 37) (58, 45))
        \<or> on_segment (58, 25) (Line (58, 45) (60, 60))"
      unfolding on_path_def by simp
    then show False
      using off_first_curve off_second_curve off_last_line by blast
  qed
qed

section \<open>Properties of the pointer handlers\<close>

lemma sqrt25: "sqrt 25 = 5"
  by (rule real_sqrt_unique) simp_all

lemma pieces_check_completion [simp]: "pieces (check_completion g) = pieces g"
  by (simp add: check_completion_def)

lemma dragged_check_completion [simp]: "draggedPieceId (check_completion g) = draggedPieceId g"
  by (simp add: check_completion_def)

lemma find_id_unique:
  assumes d: "distinct (map piece_id ps)" and f: "find (\<lambda>p. piece_id p = k) ps = Some q"
    and p: "p \<in> set ps" and k: "piece_id p = k"
  shows "p = q"
proof -
  from f have "q \<in> set ps" "piece_id q = k"
    by (auto simp add: find_Some_iff)
  moreover from d have "inj_on piece_id (set ps)" by (simp add: distinct_map)
  ultimately show ?thesis using p k by (auto dest: inj_onD)
qed

lemma find_id_None:
  assumes "find (\<lambda>p. piece_id p = k) ps = None" "p \<in> set ps"
  shows "piece_id p \<noteq> k"
  using assms by (auto simp add: find_None_iff)

lemma map_ids_keep:
  assumes "\<And>p. piece_id (f p) = piece_id p"
  shows "map piece_id (map f ps) = map piece_id ps"
  using assms by simp

lemma pointer_down_pieces:
  "pieces (handlePointerDown now cx cy bl bt k g) =
     (case find (\<lambda>p. piece_id p = k) (pieces g) of
        None \<Rightarrow> pieces g
      | Some piece \<Rightarrow>
          if isLocked piece then pieces g
          else map (\<lambda>p. if piece_id p = k
                         then p\<lparr> zIndex := foldr max (map zIndex (pieces g)) 1 + 1 \<rparr> else p)
                   (pieces g))"
  by (simp add: handlePointerDown_def Let_def split: option.splits)

lemma pointer_down_dragged:
  "draggedPieceId (handlePointerDown now cx cy bl bt k g) =
     (case find (\<lambda>p. piece_id p = k) (pieces g) of
        None \<Rightarrow> draggedPieceId g
      | Some piece \<Rightarrow> if isLocked piece then draggedPieceId g else Some k)"
  by (simp add: handlePointerDown_def Let_def split: option.splits)

lemma pointer_move_pieces:
  "pieces (handlePointerMove cx cy board g) =
     (case draggedPieceId g of
        None \<Rightarrow> pieces g
      | Some d \<Rightarrow>
          (case board of
             None \<Rightarrow> pieces g
           | Some b \<Rightarrow>
               map (\<lambda>p. if piece_id p \<noteq> d then p
                         else p\<lparr> currentPos := \<lparr> xc = cx - fst b - xc (dragOffset g),
                                                yc = cy - snd b - yc (dragOffset g) \<rparr> \<rparr>)
                   (pieces g)))"
  by (simp add: handlePointerMove_def Let_def split: option.splits prod.splits)

lemma pointer_move_dragged [simp]:
  "draggedPieceId (handlePointerMove cx cy board g) = draggedPieceId g"
  by (simp add: handlePointerMove_def Let_def split: option.splits prod.splits)

lemma pointer_up_pieces:
  "pieces (handlePointerUp tol g) =
     (case draggedPieceId g of
        None \<Rightarrow> pieces g
      | Some d \<Rightarrow>
          (case find (\<lambda>p. piece_id p = d) (pieces g) of
             None \<Rightarrow> pieces g
           | Some piece \<Rightarrow>
               if snap_dist piece < tol
               then map (\<lambda>p. if piece_id p \<noteq> d then p
                              else p\<lparr> currentPos := correctPos p, isLocked := True, zIndex := 0 \<rparr>)
                        (pieces g)
               else pieces g))"
  by (simp add: handlePointerUp_def Let_def split: option.splits)

lemma pointer_up_dragged [simp]: "draggedPieceId (handlePointerUp tol g) = None"
  by (simp add: handlePointerUp_def Let_def split: option.splits)

lemma length_handle [simp]: "length (pieces (handle tol ev g)) = length (pieces g)"
  by (cases ev)
     (simp_all add: pointer_down_pieces pointer_move_pieces pointer_up_pieces split: option.splits)

lemma ids_handle [simp]: "map piece_id (pieces (handle tol ev g)) = map piece_id (pieces g)"
  by (cases ev)
     (simp_all add: pointer_down_pieces pointer_move_pieces pointer_up_pieces o_def
        split: option.splits cong: map_cong)

lemma game_inv_map:
  assumes inv: "game_inv g" and ps: "pieces g' = map f (pieces g)"
    and ids: "\<And>p. piece_id (f p) = piece_id p"
    and lock: "\<And>p. p \<in> set (pieces g) \<Longrightarrow> isLocked (f p) \<Longrightarrow> currentPos (f p) = correctPos (f p)"
    and drag: "\<And>d p. draggedPieceId g' = Some d \<Longrightarrow> p \<in> set (pieces g) \<Longrightarrow> piece_id p = d
                 \<Longrightarrow> \<not> isLocked (f p)"
  shows "game_inv g'"
proof -
  have "map piece_id (pieces g') = map piece_id (pieces g)"
    unfolding ps using ids by simp
  then have d: "distinct (map piece_id (pieces g'))" using inv by (simp add: game_inv_def)
  have l: "\<forall>p \<in> set (pieces g'). isLocked p \<longrightarrow> currentPos p = correctPos p"
    unfolding ps using lock by auto
  have dr: "\<forall>d. draggedPieceId g' = Some d \<longrightarrow>
            (\<forall>p \<in> set (pieces g'). piece_id p = d \<longrightarrow> \<not> isLocked p)"
    unfolding ps using drag ids by auto
  show ?thesis unfolding game_inv_def using d l dr by blast
qed

lemma game_inv_same:
  assumes inv: "game_inv g" and ps: "pieces g' = pieces g"
    and dr: "draggedPieceId g' = draggedPieceId g \<or> draggedPieceId g' = None"
  shows "game_inv g'"
  using assms unfolding game_inv_def by auto

lemma game_inv_down:
  assumes inv: "game_inv g"
  shows "game_inv (handlePointerDown now cx cy bl bt k g)"
proof (cases "find (\<lambda>p. piece_id p = k) (pieces g)")
  case None
  then show ?thesis
    by (intro game_inv_same[OF inv]) (simp_all add: pointer_down_pieces pointer_down_dragged)
next
  case (Some piece)
  show ?thesis
  proof (cases "isLocked piece")
    case True
    then show ?thesis using Some
      by (intro game_inv_same[OF inv]) (simp_all add: pointer_down_pieces pointer_down_dragged)
  next
    case False
    let ?f = "\<lambda>p. if piece_id p = k
                   then p\<lparr> zIndex := foldr max (map zIndex (pieces g)) 1 + 1 \<rparr> else p"
    have d: "distinct (map piece_id (pieces g))" using inv by (simp add: game_inv_def)
    show ?thesis
    proof (rule game_inv_map[OF inv, where f = ?f])
      show "pieces (handlePointerDown now cx cy bl bt k g) = map ?f (pieces g)"
        using Some False by (simp add: pointer_down_pieces)
      show "piece_id (?f p) = piece_id p" for p by simp
      show "currentPos (?f p) = correctPos (?f p)" if "p \<in> set (pieces g)" "isLocked (?f p)" for p
        using that inv by (auto simp add: game_inv_def split: if_splits)
      show "\<not> isLocked (?f p)"
        if "draggedPieceId (handlePointerDown now cx cy bl bt k g) = Some d"
          "p \<in> set (pieces g)" "piece_id p = d" for d p
      proof -
        have "d = k" using that(1) Some False by (simp add: pointer_down_dragged)
        then have "p = piece" using find_id_unique[OF d Some that(2)] that(3) by simp
        then show ?thesis using False by simp
      qed
    qed
  qed
qed

lemma game_inv_move:
  assumes inv: "game_inv g"
  shows "game_inv (handlePointerMove cx cy board g)"
proof (cases "draggedPieceId g")
  case None
  then show ?thesis
    by (intro game_inv_same[OF inv]) (simp_all add: pointer_move_pieces)
next
  case (Some d)
  show ?thesis
  proof (cases board)
    case None
    then show ?thesis using Some
      by (intro game_inv_same[OF inv]) (simp_all add: pointer_move_pieces)
  next
    case (Some b)
    let ?f = "\<lambda>p. if piece_id p \<noteq> d then p
                   else p\<lparr> currentPos := \<lparr> xc = cx - fst b - xc (dragOffset g),
                                          yc = cy - snd b - yc (dragOffset g) \<rparr> \<rparr>"
    have unl: "\<And>p. p \<in> set (pieces g) \<Longrightarrow> piece_id p = d \<Longrightarrow> \<not> isLocked p"
      using inv \<open>draggedPieceId g = Some d\<close> by (simp add: game_inv_def)
    show ?thesis
    proof (rule game_inv_map[OF inv, where f = ?f])
      show "pieces (handlePointerMove cx cy board g) = map ?f (pieces g)"
        using Some \<open>draggedPieceId g = Some d\<close> by (simp add: pointer_move_pieces)
      show "piece_id (?f p) = piece_id p" for p by simp
      show "currentPos (?f p) = correctPos (?f p)" if "p \<in> set (pieces g)" "isLocked (?f p)" for p
      proof (cases "piece_id p = d")
        case True
        then show ?thesis using that unl by auto
      next
        case False
        then show ?thesis using that inv by (simp add: game_inv_def)
      qed
      show "\<not> isLocked (?f p)"
        if "draggedPieceId (handlePointerMove cx cy board g) = Some d'"
          "p \<in> set (pieces g)" "piece_id p = d'" for d' p
      proof -
        have "d' = d" using that(1) \<open>draggedPieceId g = Some d\<close> by simp
        then show ?thesis using unl[OF that(2)] that(3) by simp
      qed
    qed
  qed
qed

lemma game_inv_up:
  assumes inv: "game_inv g"
  shows "game_inv (handlePointerUp tol g)"
proof (cases "\<exists>d piece. draggedPieceId g = Some d
          \<and> find (\<lambda>p. piece_id p = d) (pieces g) = Some piece \<and> snap_dist piece < tol")
  case False
  then have "pieces (handlePointerUp tol g) = pieces g"
    by (auto simp add: pointer_up_pieces split: option.splits)
  then show ?thesis by (intro game_inv_same[OF inv]) simp_all
next
  case True
  then obtain d piece where d: "draggedPieceId g = Some d"
    and f: "find (\<lambda>p. piece_id p = d) (pieces g) = Some piece" and s: "snap_dist piece < tol"
    by blast
  let ?f = "\<lambda>p. if piece_id p \<noteq> d then p
                 else p\<lparr> currentPos := correctPos p, isLocked := True, zIndex := 0 \<rparr>"
  show ?thesis
  proof (rule game_inv_map[OF inv, where f = ?f])
    show "pieces (handlePointerUp tol g) = map ?f (pieces g)"
      using d f s by (simp add: pointer_up_pieces)
    show "piece_id (?f p) = piece_id p" for p by simp
    show "currentPos (?f p) = correctPos (?f p)" if "p \<in> set (pieces g)" "isLocked (?f p)" for p
      using that inv by (cases "piece_id p = d") (simp_all add: game_inv_def)
    show "\<not> isLocked (?f p)"
      if "draggedPieceId (handlePointerUp tol g) = Some d'" for d' p
      using that by simp
  qed
qed

lemma game_inv_step:
  assumes "game_inv g"
  shows "game_inv (step tol ev g)"
proof -
  have "game_inv (handle tol ev g)"
    using assms by (cases ev) (simp_all add: game_inv_down game_inv_move game_inv_up)
  then show ?thesis
    unfolding step_def by (rule game_inv_same) simp_all
qed

lemma game_inv_play:
  assumes "game_inv g"
  shows "game_inv (play tol evs g)"
  using assms unfolding play_def
  by (induction evs arbitrary: g) (simp_all add: game_inv_step)

lemma game_inv_new:
  assumes "distinct (map piece_id ps)" "list_all (\<lambda>p. \<not> isLocked p) ps"
  shows "game_inv (new_game ps)"
  using assms by (simp add: game_inv_def new_game_def list_all_iff)

lemma locked_handle:
  assumes inv: "game_inv g" and i: "i < length (pieces g)" and l: "isLocked (pieces g ! i)"
  shows "pieces (handle tol ev g) ! i = pieces g ! i"
proof -
  have mem: "pieces g ! i \<in> set (pieces g)" using i by simp
  have d: "distinct (map piece_id (pieces g))" using inv by (simp add: game_inv_def)
  have nodrag: "draggedPieceId g \<noteq> Some (piece_id (pieces g ! i))"
    using inv mem l by (auto simp add: game_inv_def)
  show ?thesis
  proof (cases ev)
    case (PointerDown now cx cy bl bt k)
    show ?thesis
    proof (cases "find (\<lambda>p. piece_id p = k) (pieces g)")
      case None
      then show ?thesis using PointerDown by (simp add: pointer_down_pieces)
    next
      case (Some piece)
      show ?thesis
      proof (cases "isLocked piece")
        case True
        then show ?thesis using PointerDown Some by (simp add: pointer_down_pieces)
      next
        case False
        have "piece_id (pieces g ! i) \<noteq> k"
        proof
          assume "piece_id (pieces g ! i) = k"
          from find_id_unique[OF d Some mem this] False l show False by simp
        qed
        then show ?thesis using PointerDown Some False i by (simp add: pointer_down_pieces)
      qed
    qed
  next
    case (PointerMove cx cy board)
    then show ?thesis using nodrag i
      by (auto simp add: pointer_move_pieces split: option.splits)
  next
    case PointerUp
    then show ?thesis using nodrag i
      by (auto simp add: pointer_up_pieces split: option.splits)
  qed
qed

lemma locked_step:
  assumes "game_inv g" "i < length (pieces g)" "isLocked (pieces g ! i)"
  shows "pieces (step tol ev g) ! i = pieces g ! i"
  using locked_handle[OF assms] by (simp add: step_def)

lemma length_step [simp]: "length (pieces (step tol ev g)) = length (pieces g)"
  by (simp add: step_def)

lemma locked_play:
  assumes "game_inv g" "i < length (pieces g)" "isLocked (pieces g ! i)"
  shows "pieces (play tol evs g) ! i = pieces g ! i"
  using assms
proof (induction evs arbitrary: g)
  case Nil
  then show ?case by (simp add: play_def)
next
  case (Cons ev evs)
  have s: "pieces (step tol ev g) ! i = pieces g ! i" using Cons.prems by (rule locked_step)
  have "pieces (play tol evs (step tol ev g)) ! i = pieces (step tol ev g) ! i"
    using Cons.prems s by (intro Cons.IH game_inv_step) simp_all
  then show ?case using s by (simp add: play_def)
qed

lemma locked_down_ignored:
  assumes inv: "game_inv g" and i: "i < length (pieces g)" and l: "isLocked (pieces g ! i)"
  shows "pieces (handlePointerDown now cx cy bl bt (piece_id (pieces g ! i)) g) = pieces g
       \<and> draggedPieceId (handlePointerDown now cx cy bl bt (piece_id (pieces g ! i)) g) = draggedPieceId g
       \<and> dragOffset (handlePointerDown now cx cy bl bt (piece_id (pieces g ! i)) g) = dragOffset g"
proof -
  have mem: "pieces g ! i \<in> set (pieces g)" using i by simp
  have d: "distinct (map piece_id (pieces g))" using inv by (simp add: game_inv_def)
  obtain q where q: "find (\<lambda>p. piece_id p = piece_id (pieces g ! i)) (pieces g) = Some q"
    using mem by (cases "find (\<lambda>p. piece_id p = piece_id (pieces g ! i)) (pieces g)")
                 (auto simp add: find_None_iff)
  from find_id_unique[OF d q mem] have "q = pieces g ! i" by simp
  then show ?thesis using q l by (simp add: handlePointerDown_def Let_def)
qed

text \<open>
  The pieces that a resolved generation hands to \<open>initGame\<close> have pairwise different ids
  and are unlocked, and scattering them changes neither, so every game starts in a state
  that satisfies the invariant.
\<close>

lemma map_enumerate_keep:
  assumes "\<And>i p. f (g i p) = f p"
  shows "map f (map (\<lambda>(i, p). g i p) (enumerate n ps)) = map f ps"
  using assms by (induction ps arbitrary: n) simp_all

lemma shuffle_ids: "map piece_id (shuffle rand pw ph ps) = map piece_id ps"
  unfolding shuffle_def by (rule map_enumerate_keep) simp

lemma shuffle_locks: "map isLocked (shuffle rand pw ph ps) = map isLocked ps"
  unfolding shuffle_def by (rule map_enumerate_keep) simp

lemma generated_pieces_fresh:
  assumes res: "generatePuzzle t tdu rand ctx img gs mw mh = Resolved ps pw ph"
  shows "distinct (map piece_id (shuffle rand' pw ph ps))
       \<and> list_all (\<lambda>p. \<not> isLocked p) (shuffle rand' pw ph ps)"
proof -
  from res obtain w h where img: "img = Loaded w h"
    by (cases img) (simp_all add: generatePuzzle_def)
  have res': "generatePuzzle t tdu rand ctx (Loaded w h) gs mw mh = Resolved ps pw ph"
    using res img by simp
  have "distinct (map piece_id ps)" using resolved_ids[OF res'] by simp
  then have d: "distinct (map piece_id (shuffle rand' pw ph ps))" by (simp add: shuffle_ids)
  from resolved_pieces[OF res'] obtain g where
    ps: "ps = pushed tdu ctx w h (layout t w h gs mw mh) g
            (cells_upto (nat (cols (layout t w h gs mw mh))) (nat (rows (layout t w h gs mw mh))) 0)"
    by blast
  have "\<not> isLocked p" if "p \<in> set ps" for p
  proof -
    from that obtain r c sh where "p = make_piece tdu w h (layout t w h gs mw mh) r c sh"
      unfolding ps using pushed_mem by blast
    then show ?thesis by (simp add: make_piece_def Let_def)
  qed
  then have "list_all (\<lambda>b. \<not> b) (map isLocked ps)" by (simp add: list_all_iff)
  then have "list_all (\<lambda>b. \<not> b) (map isLocked (shuffle rand' pw ph ps))"
    by (simp only: shuffle_locks)
  then have "list_all (\<lambda>p. \<not> isLocked p) (shuffle rand' pw ph ps)"
    by (simp add: list_all_iff)
  then show ?thesis using d by simp
qed

lemma game_inv_initGame:
  "game_inv (initGame rand' (generatePuzzle t tdu rand ctx img gs mw mh))"
proof (cases "generatePuzzle t tdu rand ctx img gs mw mh")
  case (Resolved ps pw ph)
  from generated_pieces_fresh[OF this, of rand'] show ?thesis
    by (simp add: Resolved initGame_def game_inv_new)
next
  case Rejected
  then show ?thesis by (simp add: initGame_def game_inv_new)
next
  case Pending
  then show ?thesis by (simp add: initGame_def game_inv_new)
qed

subsection \<open>The release handler of a render, in doubles\<close>

text \<open>
  \<^const>\<open>handlePointerUp\<close> is \<^const>\<open>handlePointerUp_in\<close> for a handler of the current
  state that computes the distance exactly.
\<close>

lemma snap_dist_exact: "snap_dist_in (\<lambda>x. x) sqrt (^) piece = snap_dist piece"
  by (simp add: snap_dist_in_def snap_dist_def)

lemma handlePointerUp_exact:
  "handlePointerUp_in (snap_dist_in (\<lambda>x. x) sqrt (^)) tol g g = handlePointerUp tol g"
  by (simp add: handlePointerUp_in_def handlePointerUp_def snap_dist_exact Let_def split: option.splits)

lemma fl_small_values:
  "fl 3 = 3" "fl 4 = 4" "fl 5 = 5" "fl 9 = 9" "fl 16 = 16" "fl 25 = 25"
       apply (subst fl_eval[where k = 1]; simp add: rne_def Let_def)
      apply (subst fl_eval[where k = 2]; simp add: rne_def Let_def)
     apply (subst fl_eval[where k = 2]; simp add: rne_def Let_def)
    apply (subst fl_eval[where k = 3]; simp add: rne_def Let_def)
   apply (subst fl_eval[where k = 4]; simp add: rne_def Let_def)
  apply (subst fl_eval[where k = 4]; simp add: rne_def Let_def)
  done

lemma fl_larger_values:
  "fl 30 = 30" "fl 40 = 40" "fl 50 = 50" "fl 900 = 900" "fl 1600 = 1600" "fl 2500 = 2500"
       apply (subst fl_eval[where k = 4]; simp add: rne_def Let_def)
      apply (subst fl_eval[where k = 5]; simp add: rne_def Let_def)
     apply (subst fl_eval[where k = 5]; simp add: rne_def Let_def)
    apply (subst fl_eval[where k = 9]; simp add: rne_def Let_def)
   apply (subst fl_eval[where k = 10]; simp add: rne_def Let_def)
  apply (subst fl_eval[where k = 11]; simp add: rne_def Let_def)
  done

lemma rne_near:
  assumes "\<bar>y - of_int n\<bar> < 1 / 2"
  shows "rne y = n"
proof -
  have b: "of_int n - 1 / 2 < y" "y < of_int n + 1 / 2" using assms by linarith+
  show ?thesis
  proof (cases "of_int n \<le> y")
    case True
    have f: "\<lfloor>y\<rfloor> = n" using True b by (intro floor_unique) linarith+
    have "y - of_int n < 1 / 2" using b by linarith
    thus ?thesis unfolding rne_def Let_def f by simp
  next
    case False
    have f: "\<lfloor>y\<rfloor> = n - 1" using False b by (intro floor_unique) simp_all
    have "1 / 2 < y - of_int (n - 1)" using b by simp
    moreover hence "\<not> y - of_int (n - 1) < 1 / 2" by simp
    ultimately show ?thesis unfolding rne_def Let_def f by simp
  qed
qed

lemma fl_sqrt_below_25: "fl (sqrt (25 - 2 powi (-48))) = 5"
proof -
  define r where "r = sqrt (25 - 2 powi (-48))"
  have lo: "5 - 2 powi (-51) < r" unfolding r_def
    by (rule real_less_rsqrt) (simp add: power2_eq_square)
  have hi: "r < 5" unfolding r_def
    by (rule real_less_lsqrt) (simp_all add: power2_eq_square)
  have b: "2 powi 2 \<le> \<bar>r\<bar>" "\<bar>r\<bar> < 2 powi (2 + 1)" using lo hi by simp_all
  have "\<bar>r / 2 powi (2 - 52) - of_int 5629499534213120\<bar> < 1 / 2"
    using lo hi by (simp add: abs_less_iff field_simps)
  hence "rne (r / 2 powi (2 - 52)) = 5629499534213120" by (rule rne_near)
  hence "fl r = 5" unfolding fl_eval[OF b] by simp
  thus ?thesis unfolding r_def .
qed

lemma fl_near_4:
  "fl (4 - 2 powi (-51)) = 4 - 2 powi (-51)"
  "fl ((4 - 2 powi (-51)) ^ 2) = 16 - 2 powi (-48)"
  "fl (9 + (16 - 2 powi (-48))) = 25 - 2 powi (-48)"
    apply (subst fl_eval[where k = 1]; simp add: rne_def Let_def)
   apply (subst fl_eval[where k = 3]; simp add: rne_def Let_def power2_eq_square)
  apply (subst fl_eval[where k = 4]; simp add: rne_def Let_def)
  done

text \<open>
  The distance that decides is the computed one. A piece dropped at \<open>(3, 4 - 2 powi (-51))\<close>
  with correct position \<open>(0, 0)\<close> is nearer than \<open>5\<close>, its computed distance is the
  double \<open>5\<close>, and at a tolerance of \<open>5\<close> it is not snapped.
\<close>

lemma snap_rounding_example:
  "snap_dist ((example_piece 0 0 0)\<lparr> currentPos := \<lparr> xc = 3, yc = 4 - 2 powi (-51) \<rparr> \<rparr>) < 5
   \<and> snap_dist_fl ((example_piece 0 0 0)\<lparr> currentPos := \<lparr> xc = 3, yc = 4 - 2 powi (-51) \<rparr> \<rparr>) = 5
   \<and> pieces (handlePointerUp_in snap_dist_fl 5
        ((new_game [(example_piece 0 0 0)\<lparr> currentPos := \<lparr> xc = 3, yc = 4 - 2 powi (-51) \<rparr> \<rparr>])
           \<lparr> draggedPieceId := Some 0 \<rparr>)
        ((new_game [(example_piece 0 0 0)\<lparr> currentPos := \<lparr> xc = 3, yc = 4 - 2 powi (-51) \<rparr> \<rparr>])
           \<lparr> draggedPieceId := Some 0 \<rparr>))
       = [(example_piece 0 0 0)\<lparr> currentPos := \<lparr> xc = 3, yc = 4 - 2 powi (-51) \<rparr> \<rparr>]"
proof -
  define y :: real where "y = 4 - 2 powi (-51)"
  define q where "q = (example_piece 0 0 0)\<lparr> currentPos := \<lparr> xc = 3, yc = y \<rparr> \<rparr>"
  have y: "fl y = y" "fl (y ^ 2) = 16 - 2 powi (-48)" unfolding y_def by (rule fl_near_4)+
  have "3 ^ 2 + y ^ 2 < (5::real) ^ 2" unfolding y_def by (simp add: power2_eq_square)
  hence "sqrt (3 ^ 2 + y ^ 2) < 5" by (intro real_less_lsqrt) simp_all
  hence exact: "snap_dist q < 5" by (simp add: q_def snap_dist_def example_piece_def)
  have "snap_dist_fl q = fl (sqrt (fl (fl (fl 3 ^ 2) + fl (fl y ^ 2))))"
    by (simp add: q_def snap_dist_fl_def snap_dist_in_def example_piece_def)
  also have "\<dots> = fl (sqrt (fl (9 + (16 - 2 powi (-48)))))"
    unfolding y fl_small_values by (simp add: fl_small_values)
  also have "\<dots> = 5" unfolding fl_near_4 by (rule fl_sqrt_below_25)
  finally have rounded: "snap_dist_fl q = 5" .
  have "pieces (handlePointerUp_in snap_dist_fl 5
          ((new_game [q])\<lparr> draggedPieceId := Some 0 \<rparr>)
          ((new_game [q])\<lparr> draggedPieceId := Some 0 \<rparr>)) = [q]"
    using rounded
    by (simp add: handlePointerUp_in_def new_game_def q_def[unfolded example_piece_def, symmetric]
          example_piece_def)
  thus ?thesis using exact rounded unfolding q_def y_def by simp
qed

text \<open>
  The piece that decides is the one of the render. When the handler was created with the
  piece at \<open>(30, 40)\<close>, at distance \<open>50\<close>, and runs on a state that has it at
  \<open>(3, 4)\<close>, at distance \<open>5\<close>, a tolerance of \<open>20\<close> does not snap it.
\<close>

lemma stale_render_example:
  "snap_dist_fl ((example_piece 0 0 0)\<lparr> currentPos := \<lparr> xc = 3, yc = 4 \<rparr> \<rparr>) < 20
   \<and> pieces (handlePointerUp_in snap_dist_fl 20
        ((new_game [(example_piece 0 0 0)\<lparr> currentPos := \<lparr> xc = 30, yc = 40 \<rparr> \<rparr>])
           \<lparr> draggedPieceId := Some 0 \<rparr>)
        ((new_game [(example_piece 0 0 0)\<lparr> currentPos := \<lparr> xc = 3, yc = 4 \<rparr> \<rparr>])
           \<lparr> draggedPieceId := Some 0 \<rparr>))
       = [(example_piece 0 0 0)\<lparr> currentPos := \<lparr> xc = 3, yc = 4 \<rparr> \<rparr>]"
  by (simp add: handlePointerUp_in_def new_game_def snap_dist_fl_def snap_dist_in_def
        example_piece_def fl_small_values fl_larger_values sqrt25 sqrt2500)

text \<open>
  Claim C8 as stated fails on the boundary: a piece dropped at \<open>(3, 4)\<close> with correct
  position \<open>(0, 0)\<close> is at distance \<open>5\<close>, within a tolerance of \<open>5\<close>, and is left
  unlocked where it is.
\<close>

theorem snap_boundary_counterexample:
  "snap_dist ((example_piece 0 0 0)\<lparr> currentPos := \<lparr> xc = 3, yc = 4 \<rparr> \<rparr>) \<le> 5
   \<and> \<not> isLocked (pieces (handlePointerUp 5
          ((new_game [(example_piece 0 0 0)\<lparr> currentPos := \<lparr> xc = 3, yc = 4 \<rparr> \<rparr>])
             \<lparr> draggedPieceId := Some 0 \<rparr>)) ! 0)
   \<and> currentPos (pieces (handlePointerUp 5
          ((new_game [(example_piece 0 0 0)\<lparr> currentPos := \<lparr> xc = 3, yc = 4 \<rparr> \<rparr>])
             \<lparr> draggedPieceId := Some 0 \<rparr>)) ! 0)
       \<noteq> correctPos (pieces (handlePointerUp 5
          ((new_game [(example_piece 0 0 0)\<lparr> currentPos := \<lparr> xc = 3, yc = 4 \<rparr> \<rparr>])
             \<lparr> draggedPieceId := Some 0 \<rparr>)) ! 0)"
  by (simp add: game_defs sqrt25)

text \<open>
  Claim C8 as the code has it. A release handler runs whose render had a piece under drag,
  \<open>piece\<close> being the piece of that id in the pieces of the render. If the distance that
  the handler computes from \<open>currentPos\<close> and \<open>correctPos\<close> of \<open>piece\<close>, with the
  rounding, \<open>Math.sqrt\<close> and \<open>Math.pow\<close> of the engine, is strictly less than the snap
  tolerance, the piece of that id in the current state gets its \<open>correctPos\<close> as
  \<open>currentPos\<close>, is locked and sent to the back (\<open>zIndex = 0\<close>); if the computed
  distance is the tolerance or more, no piece changes, so the piece stays where it was
  dropped, as unlocked as before. In both cases the drag ends.
\<close>

theorem release_snaps:
  assumes drag: "draggedPieceId rendered = Some d"
    and piece: "find (\<lambda>p. piece_id p = d) (pieces rendered) = Some piece"
    and i: "i < length (pieces g)" and id: "piece_id (pieces g ! i) = d"
  shows "(snap_dist_in rnd Math_sqrt Math_pow piece < tol \<longrightarrow>
            pieces (handlePointerUp_in (snap_dist_in rnd Math_sqrt Math_pow) tol rendered g) ! i
              = (pieces g ! i)\<lparr> currentPos := correctPos (pieces g ! i), isLocked := True,
                                 zIndex := 0 \<rparr>)
       \<and> (tol \<le> snap_dist_in rnd Math_sqrt Math_pow piece \<longrightarrow>
            pieces (handlePointerUp_in (snap_dist_in rnd Math_sqrt Math_pow) tol rendered g)
              = pieces g)
       \<and> draggedPieceId (handlePointerUp_in (snap_dist_in rnd Math_sqrt Math_pow) tol rendered g)
           = None"
  using assms by (simp add: handlePointerUp_in_def)

theorem release_snaps_witness:
  "isLocked (pieces (handlePointerUp_in snap_dist_fl 20
      ((new_game [(example_piece 0 (- 20) (- 20))\<lparr> currentPos := \<lparr> xc = - 17, yc = - 16 \<rparr> \<rparr>,
                  example_piece 1 80 (- 20)])\<lparr> draggedPieceId := Some 0 \<rparr>)
      ((new_game [(example_piece 0 (- 20) (- 20))\<lparr> currentPos := \<lparr> xc = - 17, yc = - 16 \<rparr> \<rparr>,
                  example_piece 1 80 (- 20)])\<lparr> draggedPieceId := Some 0 \<rparr>)) ! 0)
   \<and> currentPos (pieces (handlePointerUp_in snap_dist_fl 20
      ((new_game [(example_piece 0 (- 20) (- 20))\<lparr> currentPos := \<lparr> xc = - 17, yc = - 16 \<rparr> \<rparr>,
                  example_piece 1 80 (- 20)])\<lparr> draggedPieceId := Some 0 \<rparr>)
      ((new_game [(example_piece 0 (- 20) (- 20))\<lparr> currentPos := \<lparr> xc = - 17, yc = - 16 \<rparr> \<rparr>,
                  example_piece 1 80 (- 20)])\<lparr> draggedPieceId := Some 0 \<rparr>)) ! 0)
       = \<lparr> xc = - 20, yc = - 20 \<rparr>
   \<and> pieces (handlePointerUp_in snap_dist_fl 5
      ((new_game [(example_piece 0 (- 20) (- 20))\<lparr> currentPos := \<lparr> xc = - 17, yc = - 16 \<rparr> \<rparr>,
                  example_piece 1 80 (- 20)])\<lparr> draggedPieceId := Some 0 \<rparr>)
      ((new_game [(example_piece 0 (- 20) (- 20))\<lparr> currentPos := \<lparr> xc = - 17, yc = - 16 \<rparr> \<rparr>,
                  example_piece 1 80 (- 20)])\<lparr> draggedPieceId := Some 0 \<rparr>))
       = [(example_piece 0 (- 20) (- 20))\<lparr> currentPos := \<lparr> xc = - 17, yc = - 16 \<rparr> \<rparr>,
          example_piece 1 80 (- 20)]"
proof -
  define G where "G = (new_game [(example_piece 0 (- 20) (- 20))\<lparr> currentPos := \<lparr> xc = - 17, yc = - 16 \<rparr> \<rparr>,
                  example_piece 1 80 (- 20)])\<lparr> draggedPieceId := Some 0 \<rparr>"
  define q where "q = (example_piece 0 (- 20) (- 20))\<lparr> currentPos := \<lparr> xc = - 17, yc = - 16 \<rparr> \<rparr>"
  have drag: "draggedPieceId G = Some 0" by (simp add: G_def)
  have f: "find (\<lambda>p. piece_id p = 0) (pieces G) = Some q"
    by (simp add: G_def q_def new_game_def example_piece_def)
  have i: "0 < length (pieces G)" by (simp add: G_def new_game_def)
  have id: "piece_id (pieces G ! 0) = 0" by (simp add: G_def new_game_def example_piece_def)
  have dq: "snap_dist_in fl (\<lambda>x. fl (sqrt x)) (\<lambda>x n. fl (x ^ n)) q = 5"
    by (simp add: q_def snap_dist_in_def example_piece_def fl_small_values sqrt25)
  have ps: "pieces G = [q, example_piece 1 80 (- 20)]" by (simp add: G_def q_def new_game_def)
  from release_snaps[OF drag f i id, of fl "\<lambda>x. fl (sqrt x)" "\<lambda>x n. fl (x ^ n)" 20]
  have a: "pieces (handlePointerUp_in (snap_dist_in fl (\<lambda>x. fl (sqrt x)) (\<lambda>x n. fl (x ^ n))) 20 G G) ! 0
            = (pieces G ! 0)\<lparr> currentPos := correctPos (pieces G ! 0), isLocked := True,
                               zIndex := 0 \<rparr>"
    unfolding dq by simp
  from release_snaps[OF drag f i id, of fl "\<lambda>x. fl (sqrt x)" "\<lambda>x n. fl (x ^ n)" 5]
  have b: "pieces (handlePointerUp_in (snap_dist_in fl (\<lambda>x. fl (sqrt x)) (\<lambda>x n. fl (x ^ n))) 5 G G)
            = pieces G"
    unfolding dq by simp
  show ?thesis
    unfolding snap_dist_fl_def
    using a[unfolded G_def] b[unfolded G_def]
    by (simp add: new_game_def example_piece_def)
qed

text \<open>
  Claim C9. In a game started with pairwise different ids and no piece locked (as every
  game that \<open>initGame\<close> starts is), once a piece is locked after some events, its \<open>currentPos\<close> is its \<open>correctPos\<close>, no further sequence
  of pointer events changes any of its fields, and a pointer-down on it changes no piece
  and does not select it for dragging.
\<close>

theorem locked_stays_locked:
  assumes "distinct (map piece_id ps)" and "list_all (\<lambda>p. \<not> isLocked p) ps"
    and "g = play tol evs (new_game ps)"
    and "i < length (pieces g)" and "isLocked (pieces g ! i)"
  shows "currentPos (pieces g ! i) = correctPos (pieces g ! i)
       \<and> pieces (play tol evs' g) ! i = pieces g ! i
       \<and> pieces (handlePointerDown now cx cy bl bt (piece_id (pieces g ! i)) g) = pieces g
       \<and> draggedPieceId (handlePointerDown now cx cy bl bt (piece_id (pieces g ! i)) g)
           = draggedPieceId g"
proof -
  have inv: "game_inv g"
    unfolding assms(3) by (intro game_inv_play game_inv_new assms(1,2))
  have "pieces g ! i \<in> set (pieces g)" using assms(4) by simp
  then have "currentPos (pieces g ! i) = correctPos (pieces g ! i)"
    using inv assms(5) by (simp add: game_inv_def)
  then show ?thesis
    using locked_play[OF inv assms(4,5)] locked_down_ignored[OF inv assms(4,5)] by simp
qed

theorem locked_stays_locked_witness:
  "isLocked (pieces (play 20 [PointerDown 0 0 0 0 0 0, PointerMove (- 17) (- 16) (Some (0, 0)), PointerUp]
               (new_game [example_piece 0 (- 20) (- 20), example_piece 1 80 (- 20)])) ! 0)
   \<and> pieces (play 20 [PointerDown 7 0 0 0 0 0, PointerMove 33 44 (Some (0, 0)), PointerUp]
        (play 20 [PointerDown 0 0 0 0 0 0, PointerMove (- 17) (- 16) (Some (0, 0)), PointerUp]
               (new_game [example_piece 0 (- 20) (- 20), example_piece 1 80 (- 20)]))) ! 0
     = (example_piece 0 (- 20) (- 20))
          \<lparr> currentPos := \<lparr> xc = - 20, yc = - 20 \<rparr>, isLocked := True, zIndex := 0 \<rparr>"
proof -
  let ?ps = "[example_piece 0 (- 20) (- 20), example_piece 1 80 (- 20)]"
  let ?evs = "[PointerDown 0 0 0 0 0 0, PointerMove (- 17) (- 16) (Some (0, 0)), PointerUp]"
  let ?g = "play 20 ?evs (new_game ?ps)"
  have g: "pieces ?g = [(example_piece 0 (- 20) (- 20))
          \<lparr> currentPos := \<lparr> xc = - 20, yc = - 20 \<rparr>, isLocked := True, zIndex := 0 \<rparr>,
          example_piece 1 80 (- 20)]"
    by (simp add: game_defs sqrt25)
  have fresh: "distinct (map piece_id ?ps)" "list_all (\<lambda>p. \<not> isLocked p) ?ps"
    by (simp_all add: example_piece_def)
  have i: "0 < length (pieces ?g)" unfolding g by simp
  have l: "isLocked (pieces ?g ! 0)" unfolding g by simp
  from locked_stays_locked[OF fresh refl i l]
  have "pieces (play 20 [PointerDown 7 0 0 0 0 0, PointerMove 33 44 (Some (0, 0)), PointerUp] ?g) ! 0
          = pieces ?g ! 0"
    by (rule conjunct1[OF conjunct2])
  then show ?thesis using l unfolding g by simp
qed

text \<open>
  Claim C10. \<open>handlePointerMove\<close> and \<open>handlePointerUp\<close> keep the number of pieces, and
  leave every piece whose id is not \<open>draggedPieceId\<close> as it was, in all its fields.
\<close>

theorem other_pieces_untouched:
  "length (pieces (handlePointerMove cx cy board g)) = length (pieces g)
   \<and> length (pieces (handlePointerUp tol g)) = length (pieces g)
   \<and> (\<forall>i < length (pieces g).
        draggedPieceId g \<noteq> Some (piece_id (pieces g ! i)) \<longrightarrow>
          pieces (handlePointerMove cx cy board g) ! i = pieces g ! i
        \<and> pieces (handlePointerUp tol g) ! i = pieces g ! i)"
  by (auto simp add: pointer_move_pieces pointer_up_pieces split: option.splits)

theorem other_pieces_untouched_witness:
  "pieces (handlePointerMove 30 40 (Some (0, 0))
      ((new_game [example_piece 0 (- 20) (- 20), example_piece 1 80 (- 20)])
         \<lparr> draggedPieceId := Some 0 \<rparr>)) ! 1 = example_piece 1 80 (- 20)
   \<and> pieces (handlePointerUp 100
      ((new_game [example_piece 0 (- 20) (- 20), example_piece 1 80 (- 20)])
         \<lparr> draggedPieceId := Some 0 \<rparr>)) ! 1 = example_piece 1 80 (- 20)"
  using other_pieces_untouched[of 30 40 "Some (0, 0)"
      "(new_game [example_piece 0 (- 20) (- 20), example_piece 1 80 (- 20)])\<lparr> draggedPieceId := Some 0 \<rparr>" 100]
  by (simp add: new_game_def example_piece_def)

end
